theory Spec2Isabelle
  imports Complex_Main "HOL-Library.Word" "HOL-Library.Multiset"
begin

section \<open>Data model of the order book (order_types.hpp, mbo_event.hpp, mbo_order_book.hpp)\<close>

type_synonym int64 = "64 word"
type_synonym int32 = "32 word"

text \<open>
  A \<open>std::list<Order>\<close> node has an identity of its own: the \<open>OrderRef\<close> of the index
  holds an iterator to it. Nodes live in an explicit store \<open>nodes\<close>, a level is the list
  of the handles of its nodes (head first), and an iterator is a handle. \<open>push_back\<close>
  allocates the handle \<open>next_node\<close>; \<open>erase\<close> frees the node.
\<close>

type_synonym handle = nat

record Order =
  order_id :: int64
  price :: int64
  qty :: int32

record OrderRef =
  is_buy :: bool
  ref_price :: int64
  it :: handle

text \<open>The fields \<open>price\<close>, \<open>size\<close> and \<open>order_id\<close> of an event are \<open>ev_price\<close>, \<open>ev_size\<close> and
  \<open>ev_order_id\<close>; the field \<open>price\<close> of an \<open>OrderRef\<close> is \<open>ref_price\<close>.\<close>

record MboEvent =
  ts_recv :: string
  ts_event :: string
  publisher_id :: int32
  instrument_id :: int32
  action :: char
  side :: char
  ev_price :: int64
  ev_size :: int32
  ev_order_id :: int64
  flags :: "32 word"
  symbol :: string

type_synonym side_map = "int64 \<rightharpoonup> handle list"

record MboOrderBook =
  bk_symbol :: string
  bids :: side_map
  asks :: side_map
  index :: "int64 \<rightharpoonup> OrderRef"
  nodes :: "handle \<rightharpoonup> Order"
  next_node :: handle

definition new_book :: "string \<Rightarrow> MboOrderBook" where
  "new_book nm = \<lparr>bk_symbol = nm, bids = Map.empty, asks = Map.empty,
                    index = Map.empty, nodes = Map.empty, next_node = 0\<rparr>"

definition is_buy_side :: "char \<Rightarrow> bool" where
  "is_buy_side sd = (sd = CHR ''B'')"

text \<open>
  The members \<open>symbol_\<close>, \<open>bids_\<close>, \<open>asks_\<close>, \<open>index_\<close> are the fields \<open>bk_symbol\<close>,
  \<open>bids\<close>, \<open>asks\<close>, \<open>index\<close>, and the member functions \<open>clear_\<close>, \<open>add_\<close>, \<open>cancel_\<close>,
  \<open>modify_\<close>, \<open>apply\<close> are \<open>book_clear\<close>, \<open>book_add\<close>, \<open>book_cancel\<close>, \<open>book_modify\<close>,
  \<open>apply_event\<close>. Prices and order ids are \<open>int64_t\<close>, quantities \<open>int32_t\<close>, compared as
  signed values.

  The bid branch and the ask branch of \<open>add_\<close>, \<open>cancel_\<close> and \<open>modify_\<close> are the same
  text with \<open>bids_\<close> and \<open>asks_\<close> exchanged; the model writes the branch once and selects
  the side map with the flag the source branches on.
\<close>

definition levels :: "bool \<Rightarrow> MboOrderBook \<Rightarrow> side_map" where
  "levels buy b = (if buy then bids b else asks b)"

definition set_levels :: "bool \<Rightarrow> side_map \<Rightarrow> MboOrderBook \<Rightarrow> MboOrderBook" where
  "set_levels buy m b = (if buy then b\<lparr>bids := m\<rparr> else b\<lparr>asks := m\<rparr>)"

text \<open>\<open>lvlIt->second.erase(it); if (lvlIt->second.empty()) side.erase(lvlIt);\<close>
  on the level \<open>lvl\<close> found at \<open>px\<close>.\<close>

definition erase_cleanup :: "bool \<Rightarrow> int64 \<Rightarrow> handle list \<Rightarrow> handle \<Rightarrow> MboOrderBook \<Rightarrow> MboOrderBook" where
  "erase_cleanup buy px lvl h b =
     (let lvl' = remove1 h lvl;
          m = levels buy b
      in set_levels buy (if lvl' = [] then m(px := None) else m(px \<mapsto> lvl'))
           (b\<lparr>nodes := (nodes b)(h := None)\<rparr>))"

text \<open>\<open>auto& q = side[px]; q.push_back(o); it = std::prev(q.end());\<close>: the level is
  created when absent; the result carries the handle of the new node.\<close>

definition push_back_level :: "bool \<Rightarrow> int64 \<Rightarrow> Order \<Rightarrow> MboOrderBook \<Rightarrow> MboOrderBook \<times> handle" where
  "push_back_level buy px ord b =
     (let h = next_node b;
          m = levels buy b;
          q = (case m px of None \<Rightarrow> [] | Some l \<Rightarrow> l)
      in (set_levels buy (m(px \<mapsto> q @ [h]))
            (b\<lparr>nodes := (nodes b)(h \<mapsto> ord), next_node := Suc h\<rparr>), h))"

text \<open>\<open>index.emplace(k, r)\<close> inserts only when the key is absent.\<close>

definition emplace :: "('k \<rightharpoonup> 'v) \<Rightarrow> 'k \<Rightarrow> 'v \<Rightarrow> ('k \<rightharpoonup> 'v)" where
  "emplace m k v = (case m k of None \<Rightarrow> m(k \<mapsto> v) | Some _ \<Rightarrow> m)"

definition book_clear :: "MboOrderBook \<Rightarrow> MboOrderBook" where
  "book_clear b = b\<lparr>bids := Map.empty, asks := Map.empty, index := Map.empty,
                nodes := Map.empty\<rparr>"

definition book_add :: "MboEvent \<Rightarrow> MboOrderBook \<Rightarrow> MboOrderBook" where
  "book_add e b =
     (let buy = is_buy_side (side e);
          b1 = (case index b (ev_order_id e) of
                  None \<Rightarrow> b
                | Some oldRef \<Rightarrow>
                    (let b' = (case levels (is_buy oldRef) b (ref_price oldRef) of
                                 None \<Rightarrow> b
                               | Some lvl \<Rightarrow>
                                   erase_cleanup (is_buy oldRef) (ref_price oldRef) lvl (it oldRef) b)
                     in b'\<lparr>index := (index b')(ev_order_id e := None)\<rparr>));
          (b2, h) = push_back_level buy (ev_price e)
                      \<lparr>order_id = ev_order_id e, price = ev_price e, qty = ev_size e\<rparr> b1
      in b2\<lparr>index := emplace (index b2) (ev_order_id e)
                         \<lparr>is_buy = buy, ref_price = ev_price e, it = h\<rparr>\<rparr>)"

text \<open>Reading \<open>ref.it->qty\<close> through an iterator whose node is gone is undefined in the
  source; the model leaves the book as it is there.\<close>

definition book_cancel :: "MboEvent \<Rightarrow> MboOrderBook \<Rightarrow> MboOrderBook" where
  "book_cancel e b =
     (case index b (ev_order_id e) of
        None \<Rightarrow> b
      | Some ref \<Rightarrow>
          (case levels (is_buy ref) b (ref_price ref) of
             None \<Rightarrow> b\<lparr>index := (index b)(ev_order_id e := None)\<rparr>
           | Some lvl \<Rightarrow>
               (case nodes b (it ref) of
                  None \<Rightarrow> b
                | Some ord \<Rightarrow>
                    (let q' = (if qty ord \<le>s ev_size e then 0 else qty ord - ev_size e)
                     in if q' = 0
                        then (let b' = erase_cleanup (is_buy ref) (ref_price ref) lvl (it ref) b
                              in b'\<lparr>index := (index b')(ev_order_id e := None)\<rparr>)
                        else b\<lparr>nodes := (nodes b)(it ref \<mapsto> ord\<lparr>qty := q'\<rparr>)\<rparr>))))"

definition book_modify :: "MboEvent \<Rightarrow> MboOrderBook \<Rightarrow> MboOrderBook" where
  "book_modify e b =
     (case index b (ev_order_id e) of
        None \<Rightarrow> book_add e b
      | Some ref \<Rightarrow>
          if is_buy_side (side e) \<noteq> is_buy ref then b
          else (case nodes b (it ref) of
                  None \<Rightarrow> b
                | Some ord \<Rightarrow>
                    (let old_px = ref_price ref;
                         old_qty = qty ord
                     in if ev_price e \<noteq> old_px
                        then (let b1 = (case levels (is_buy ref) b old_px of
                                          None \<Rightarrow> b
                                        | Some lvl \<Rightarrow>
                                            erase_cleanup (is_buy ref) old_px lvl (it ref) b);
                                  (b2, h) = push_back_level (is_buy ref) (ev_price e)
                                     \<lparr>order_id = ev_order_id e, price = ev_price e,
                                      qty = ev_size e\<rparr> b1
                              in b2\<lparr>index := (index b2)(ev_order_id e \<mapsto>
                                     ref\<lparr>ref_price := ev_price e, it := h\<rparr>)\<rparr>)
                        else if old_qty <s ev_size e
                        then (case levels (is_buy ref) b old_px of
                                None \<Rightarrow> b
                              | Some lvl \<Rightarrow>
                                  (let b1 = set_levels (is_buy ref)
                                              ((levels (is_buy ref) b)(old_px \<mapsto> remove1 (it ref) lvl))
                                              (b\<lparr>nodes := (nodes b)(it ref := None)\<rparr>);
                                       (b2, h) = push_back_level (is_buy ref) old_px
                                          \<lparr>order_id = ev_order_id e, price = old_px,
                                           qty = ev_size e\<rparr> b1
                                   in b2\<lparr>index := (index b2)(ev_order_id e \<mapsto>
                                          ref\<lparr>it := h\<rparr>)\<rparr>))
                        else b\<lparr>nodes := (nodes b)(it ref \<mapsto> ord\<lparr>qty := ev_size e\<rparr>)\<rparr>)))"

definition apply_event :: "MboEvent \<Rightarrow> MboOrderBook \<Rightarrow> MboOrderBook" where
  "apply_event e b =
     (if action e = CHR ''T'' \<or> action e = CHR ''F'' \<or> action e = CHR ''N'' then b
      else if action e = CHR ''R'' then book_clear b
      else if side e \<noteq> CHR ''A'' \<and> side e \<noteq> CHR ''B'' then b
      else if action e = CHR ''A'' then book_add e b
      else if action e = CHR ''C'' then book_cancel e b
      else if action e = CHR ''M'' then book_modify e b
      else b)"

text \<open>A finite sequence of events applied, in order, to the book a session starts with.\<close>

definition run_events :: "MboEvent list \<Rightarrow> MboOrderBook \<Rightarrow> MboOrderBook" where
  "run_events es b = foldl (\<lambda>s e. apply_event e s) b es"


subsection \<open>Well-formed books\<close>

text \<open>
  The representation invariant of the book: every index entry points to a node of the
  level it names, and that node holds the order of that id at that price; every node of
  a level is the one the index records for its order, on that side and at that price; no
  level is empty and no node occurs twice in a level; every allocated node is older than
  the next node to allocate.
\<close>

definition book_inv :: "MboOrderBook \<Rightarrow> bool" where
  "book_inv b \<longleftrightarrow>
     (\<forall>oid r. index b oid = Some r \<longrightarrow>
        (\<exists>lvl. levels (is_buy r) b (ref_price r) = Some lvl \<and> it r \<in> set lvl) \<and>
        (\<exists>ord. nodes b (it r) = Some ord \<and> order_id ord = oid \<and> price ord = ref_price r)) \<and>
     (\<forall>buy px lvl h. levels buy b px = Some lvl \<longrightarrow> h \<in> set lvl \<longrightarrow>
        (\<exists>ord. nodes b h = Some ord \<and>
           index b (order_id ord) = Some \<lparr>is_buy = buy, ref_price = px, it = h\<rparr>)) \<and>
     (\<forall>buy px lvl. levels buy b px = Some lvl \<longrightarrow> lvl \<noteq> [] \<and> distinct lvl) \<and>
     (\<forall>h ord. nodes b h = Some ord \<longrightarrow> h < next_node b)"

text \<open>
  Two composite updates used to describe what the operations do on a well-formed book:
  taking the order of an index entry out of the book, and appending a new order to the
  tail of a level.
\<close>

definition remove_order :: "int64 \<Rightarrow> OrderRef \<Rightarrow> handle list \<Rightarrow> MboOrderBook \<Rightarrow> MboOrderBook" where
  "remove_order oid r lvl b =
     (erase_cleanup (is_buy r) (ref_price r) lvl (it r) b)\<lparr>index := (index b)(oid := None)\<rparr>"

definition insert_order :: "bool \<Rightarrow> int64 \<Rightarrow> int64 \<Rightarrow> int32 \<Rightarrow> MboOrderBook \<Rightarrow> MboOrderBook" where
  "insert_order buy px oid q b =
     (let (b2, h) = push_back_level buy px \<lparr>order_id = oid, price = px, qty = q\<rparr> b
      in b2\<lparr>index := (index b2)(oid \<mapsto> \<lparr>is_buy = buy, ref_price = px, it = h\<rparr>)\<rparr>)"


text \<open>An event with the fields the book reads, for the worked examples.\<close>

definition mk_event :: "char \<Rightarrow> char \<Rightarrow> int64 \<Rightarrow> int32 \<Rightarrow> int64 \<Rightarrow> MboEvent" where
  "mk_event a s px sz oid =
     \<lparr>ts_recv = [], ts_event = [], publisher_id = 0, instrument_id = 0, action = a,
      side = s, ev_price = px, ev_size = sz, ev_order_id = oid, flags = 0, symbol = []\<rparr>"

text \<open>The order count of one level as \<open>to_json\<close> computes it:
  \<open>int64_t ct = 0; for (const auto& o : level) ++ct;\<close>\<close>

definition level_ct :: "handle list \<Rightarrow> int64" where
  "level_ct lvl = foldl (\<lambda>ct h. ct + 1) 0 lvl"

section \<open>The persistent-writer queue (tcp_main_ws.cpp)\<close>

text \<open>
  \<open>SnapshotWrite\<close> carries a \<open>TopOfBook\<close>, whose prices are doubles; the queue never
  looks into it, so its type is a parameter.
\<close>

record 'tob SnapshotWrite =
  ts_us :: int64
  sw_symbol :: string
  tob :: 'tob

text \<open>
  \<open>while (q.size() >= max_q) q.pop_front();\<close> on the deque \<open>q\<close>, oldest item first.
  \<open>pop_front\<close> on an empty deque is undefined in the source (it is reached only when
  \<open>max_q\<close> is 0): the model answers \<open>None\<close> there.
\<close>

fun pop_while_full :: "nat \<Rightarrow> 'a list \<Rightarrow> 'a list option" where
  "pop_while_full max_q [] = (if 0 \<ge> max_q then None else Some [])"
| "pop_while_full max_q (x # q) =
     (if Suc (length q) \<ge> max_q then pop_while_full max_q q else Some (x # q))"

text \<open>\<open>enqueue_snapshot_write\<close>; \<open>pg\<close> tells whether the writer pointer is non-null. The
  mutex and the condition variable make the body atomic and are not modelled. The driver
  passes the capacity \<open>max_q = 20000\<close>.\<close>

definition enqueue_snapshot_write ::
  "bool \<Rightarrow> nat \<Rightarrow> int64 \<Rightarrow> string \<Rightarrow> 'tob \<Rightarrow> 'tob SnapshotWrite list
     \<Rightarrow> 'tob SnapshotWrite list option" where
  "enqueue_snapshot_write pg max_q t sy tb q =
     (if \<not> pg then Some q
      else (let item = \<lparr>ts_us = t, sw_symbol = sy, tob = tb\<rparr>
            in case pop_while_full max_q q of
                 None \<Rightarrow> None
               | Some q' \<Rightarrow> Some (q' @ [item])))"

text \<open>A run of enqueue operations with no dequeue in between, one per item, in order.\<close>

fun enqueue_all ::
  "bool \<Rightarrow> nat \<Rightarrow> 'tob SnapshotWrite list \<Rightarrow> 'tob SnapshotWrite list
     \<Rightarrow> 'tob SnapshotWrite list option" where
  "enqueue_all pg max_q [] q = Some q"
| "enqueue_all pg max_q (x # xs) q =
     (case enqueue_snapshot_write pg max_q (ts_us x) (sw_symbol x) (tob x) q of
        None \<Rightarrow> None
      | Some q' \<Rightarrow> enqueue_all pg max_q xs q')"

section \<open>The snapshot store (snapshot_store.cpp)\<close>

text \<open>
  A \<open>std::shared_ptr<const std::string>\<close> is \<open>None\<close> when null and \<open>Some s\<close> when it
  owns the string \<open>s\<close>. The shared mutex makes each operation atomic; the model is the
  sequential store.
\<close>

type_synonym snapshot_ptr = "string option"

record snapshot_store =
  g_latest_by_symbol :: "string \<rightharpoonup> snapshot_ptr"
  g_latest_global :: snapshot_ptr

definition initial_store :: snapshot_store where
  "initial_store = \<lparr>g_latest_by_symbol = Map.empty, g_latest_global = Some ''{}''\<rparr>"

definition publish_snapshot_global :: "string \<Rightarrow> snapshot_store \<Rightarrow> snapshot_store" where
  "publish_snapshot_global s st = st\<lparr>g_latest_global := Some s\<rparr>"

definition publish_snapshot :: "string \<Rightarrow> string \<Rightarrow> snapshot_store \<Rightarrow> snapshot_store" where
  "publish_snapshot sy s st =
     st\<lparr>g_latest_by_symbol := (g_latest_by_symbol st)(sy \<mapsto> Some s)\<rparr>"

definition load_snapshot_global :: "snapshot_store \<Rightarrow> snapshot_ptr" where
  "load_snapshot_global st = g_latest_global st"

definition load_snapshot :: "string \<Rightarrow> snapshot_store \<Rightarrow> snapshot_ptr" where
  "load_snapshot sy st =
     (case g_latest_by_symbol st sy of
        Some p \<Rightarrow> p
      | None \<Rightarrow> g_latest_global st)"

text \<open>The publish calls a process makes, in order, from the initial store.\<close>

datatype publish_call = PublishGlobal string | PublishSymbol string string

fun do_publish :: "snapshot_store \<Rightarrow> publish_call \<Rightarrow> snapshot_store" where
  "do_publish st (PublishGlobal s) = publish_snapshot_global s st"
| "do_publish st (PublishSymbol sy s) = publish_snapshot sy s st"

definition run_publishes :: "publish_call list \<Rightarrow> snapshot_store" where
  "run_publishes calls = foldl do_publish initial_store calls"

text \<open>What the calls say was published last: for a symbol, if anything; for the global
  slot, with the initial \<open>{}\<close> when nothing was.\<close>

fun last_for_symbol :: "string \<Rightarrow> publish_call list \<Rightarrow> string option" where
  "last_for_symbol sy [] = None"
| "last_for_symbol sy (PublishSymbol sy' s # calls) =
     (case last_for_symbol sy calls of
        Some s' \<Rightarrow> Some s'
      | None \<Rightarrow> if sy' = sy then Some s else None)"
| "last_for_symbol sy (PublishGlobal s # calls) = last_for_symbol sy calls"

fun last_global :: "string \<Rightarrow> publish_call list \<Rightarrow> string" where
  "last_global cur [] = cur"
| "last_global cur (PublishGlobal s # calls) = last_global s calls"
| "last_global cur (PublishSymbol sy s # calls) = last_global cur calls"

section \<open>The engine driver (tcp_main_ws.cpp, handle_line)\<close>

text \<open>
  The state \<open>handle_line\<close> updates through its reference parameters. The latency
  histograms record clock readings and are left out; the snapshot fan-out reads the book
  and writes to the snapshot store, the writer queue and the feed log, and changes none
  of the fields below. \<open>parse_mbo_csv_line\<close> (which converts the price through a double)
  and \<open>ts_event_to_us\<close> (which calls \<open>sscanf\<close> and \<open>timegm\<close>) are parameters.
\<close>

record driver_state =
  book :: MboOrderBook
  book_symbol :: string
  has_symbol :: bool
  processed :: int64
  parsed_ok :: int64
  lines_total :: "64 word"
  last_ts_us :: int64

definition strip_cr :: "string \<Rightarrow> string" where
  "strip_cr line = (if line \<noteq> [] \<and> last line = CHR 0x0D then butlast line else line)"

definition starts_with :: "string \<Rightarrow> string \<Rightarrow> bool" where
  "starts_with p line = (take (length p) line = p)"

definition is_header_line :: "string \<Rightarrow> bool" where
  "is_header_line line =
     (starts_with ''ts_event'' line \<or> starts_with ''publisher_id'' line \<or>
      starts_with ''instrument_id'' line)"

definition handle_line ::
  "(string \<Rightarrow> MboEvent option) \<Rightarrow> (string \<Rightarrow> int64) \<Rightarrow> string \<Rightarrow> driver_state
     \<Rightarrow> driver_state \<times> bool" where
  "handle_line parse_mbo_csv_line ts_event_to_us line0 st =
     (let line = strip_cr line0 in
      if line = [] then (st, False)
      else if is_header_line line then (st, False)
      else (let st1 = st\<lparr>lines_total := lines_total st + 1\<rparr> in
            case parse_mbo_csv_line line of
              None \<Rightarrow> (st1, False)
            | Some e \<Rightarrow>
                (let st2 = st1\<lparr>parsed_ok := parsed_ok st1 + 1\<rparr>;
                     st3 = (if ts_event e \<noteq> []
                            then st2\<lparr>last_ts_us := ts_event_to_us (ts_event e)\<rparr> else st2);
                     st4 = (if \<not> has_symbol st3 \<and> symbol e \<noteq> []
                            then st3\<lparr>book_symbol := symbol e, book := new_book (symbol e),
                                     has_symbol := True\<rparr>
                            else st3);
                     st5 = st4\<lparr>book := apply_event e (book st4)\<rparr>;
                     st6 = st5\<lparr>processed := processed st5 + 1\<rparr>
                 in (st6, True))))"

section \<open>The push server: control messages (ws_server.cpp, WsSession)\<close>

text \<open>\<open>std::isspace\<close> and \<open>std::isdigit\<close> on an \<open>unsigned char\<close>, in the C locale.\<close>

definition isspace_c :: "char \<Rightarrow> bool" where
  "isspace_c ch = (ch = CHR 0x20 \<or> (9 \<le> (of_char ch :: nat) \<and> (of_char ch :: nat) \<le> 13))"

definition isdigit_c :: "char \<Rightarrow> bool" where
  "isdigit_c ch = (48 \<le> (of_char ch :: nat) \<and> (of_char ch :: nat) \<le> 57)"

text \<open>\<open>s.find(pat)\<close>: the first position where \<open>pat\<close> occurs in \<open>s\<close>; \<open>None\<close> is
  \<open>npos\<close>.\<close>

fun find_str :: "string \<Rightarrow> string \<Rightarrow> nat option" where
  "find_str pat [] = (if pat = [] then Some 0 else None)"
| "find_str pat (ch # cs) =
     (if take (length pat) (ch # cs) = pat then Some 0
      else map_option Suc (find_str pat cs))"

fun index_of :: "char \<Rightarrow> string \<Rightarrow> nat option" where
  "index_of c0 [] = None"
| "index_of c0 (ch # cs) = (if ch = c0 then Some 0 else map_option Suc (index_of c0 cs))"

text \<open>\<open>s.find(c, pos)\<close>: the first position at or after \<open>pos\<close> that holds \<open>c\<close>.\<close>

definition find_char :: "char \<Rightarrow> string \<Rightarrow> nat \<Rightarrow> nat option" where
  "find_char c0 s pos = map_option (\<lambda>i. pos + i) (index_of c0 (drop pos s))"

function skip_ws :: "string \<Rightarrow> nat \<Rightarrow> nat" where
  "skip_ws s i = (if i < length s \<and> isspace_c (s ! i) then skip_ws s (Suc i) else i)"
  by pat_completeness auto
termination
  by (relation "measure (\<lambda>(s, i). length s - i)") auto

declare skip_ws.simps [simp del]

definition dquote :: char where
  "dquote = CHR 0x22"

definition quoted :: "string \<Rightarrow> string" where
  "quoted s = dquote # s @ [dquote]"

text \<open>The two parsers return their output parameter when the source returns true.\<close>

definition parse_string_value_after_key :: "string \<Rightarrow> string \<Rightarrow> string option" where
  "parse_string_value_after_key s key =
     (case find_str (quoted key) s of
        None \<Rightarrow> None
      | Some kpos \<Rightarrow>
          (case find_char CHR '':'' s kpos of
             None \<Rightarrow> None
           | Some cpos \<Rightarrow>
               (let i = skip_ws s (cpos + 1) in
                if i \<ge> length s \<or> s ! i \<noteq> dquote then None
                else (case find_char dquote s (i + 1) of
                        None \<Rightarrow> None
                      | Some en \<Rightarrow> Some (take (en - (i + 1)) (drop (i + 1) s))))))"

text \<open>The digit loop: \<open>val = val * 10 + (s[i] - '0'); ++i; if (val > 1000000000LL) break;\<close>
  on a \<open>long long\<close>, which holds every value the loop can reach.\<close>

fun digits_loop :: "int \<Rightarrow> string \<Rightarrow> int" where
  "digits_loop v [] = v"
| "digits_loop v (ch # cs) =
     (if isdigit_c ch
      then (let v' = v * 10 + (int (of_char ch) - 48)
            in if v' > 1000000000 then v' else digits_loop v' cs)
      else v)"

text \<open>\<open>static_cast<int>\<close> of a \<open>long long\<close>: the value modulo \<open>2^32\<close>, read as signed.\<close>

definition cast_int :: "int \<Rightarrow> int" where
  "cast_int v = sint (word_of_int v :: 32 word)"

definition parse_int_value_after_key :: "string \<Rightarrow> string \<Rightarrow> int option" where
  "parse_int_value_after_key s key =
     (case find_str (quoted key) s of
        None \<Rightarrow> None
      | Some kpos \<Rightarrow>
          (case find_char CHR '':'' s kpos of
             None \<Rightarrow> None
           | Some cpos \<Rightarrow>
               (let i0 = skip_ws s (cpos + 1);
                    neg = (i0 < length s \<and> s ! i0 = CHR ''-'');
                    i = (if neg then i0 + 1 else i0)
                in if i \<ge> length s \<or> \<not> isdigit_c (s ! i) then None
                   else (let v = digits_loop 0 (drop i s);
                             v' = (if neg then - v else v)
                         in Some (cast_int v')))))"

record WsSession =
  ws_symbol :: string
  depth :: int
  push_ms :: int
  last_sent :: "string option"
  write_in_flight :: bool

definition parse_control_message :: "string \<Rightarrow> WsSession \<Rightarrow> WsSession \<times> bool" where
  "parse_control_message msg st =
     (case parse_string_value_after_key msg ''type'' of
        None \<Rightarrow> (st, False)
      | Some type_out \<Rightarrow>
          if type_out \<noteq> ''subscribe'' \<and> type_out \<noteq> ''update'' then (st, False)
          else (let st1 = (case parse_string_value_after_key msg ''symbol'' of
                             None \<Rightarrow> st
                           | Some sy \<Rightarrow> if sy \<noteq> [] then st\<lparr>ws_symbol := sy\<rparr> else st);
                    st2 = (case parse_int_value_after_key msg ''depth'' of
                             None \<Rightarrow> st1
                           | Some d \<Rightarrow> if d > 0 \<and> d \<le> 200 then st1\<lparr>depth := d\<rparr> else st1);
                    st3 = (case parse_int_value_after_key msg ''push_ms'' of
                             None \<Rightarrow> st2
                           | Some pm \<Rightarrow>
                               (let pm1 = (if pm < 10 then 10 else pm);
                                    pm2 = (if pm1 > 5000 then 5000 else pm1)
                                in st2\<lparr>push_ms := pm2\<rparr>))
                in (st3, True)))"

text \<open>\<open>std::to_string(int)\<close>: decimal digits, with a minus sign for a negative value.\<close>

fun nat_digits :: "nat \<Rightarrow> string" where
  "nat_digits k =
     (if k < 10 then [char_of (48 + k)] else nat_digits (k div 10) @ [char_of (48 + k mod 10)])"

declare nat_digits.simps [simp del]

definition to_string :: "int \<Rightarrow> string" where
  "to_string i = (if i < 0 then CHR ''-'' # nat_digits (nat (- i)) else nat_digits (nat i))"

definition make_ack_json :: "string \<Rightarrow> int \<Rightarrow> int \<Rightarrow> string" where
  "make_ack_json sy d pm =
     ''{'' @ quoted ''type'' @ '':'' @ quoted ''ack'' @ '','' @ quoted ''symbol'' @ '':''
       @ quoted sy @ '','' @ quoted ''depth'' @ '':'' @ to_string d @ '',''
       @ quoted ''push_ms'' @ '':'' @ to_string pm @ ''}''"

text \<open>
  \<open>on_read\<close>: the argument is \<open>None\<close> when the read ended with an error code (the handler
  returns at once) and the text of the frame otherwise. The result carries the frames
  handed to \<open>async_write\<close>.
\<close>

definition on_read :: "string option \<Rightarrow> WsSession \<Rightarrow> WsSession \<times> string list" where
  "on_read rd st =
     (case rd of
        None \<Rightarrow> (st, [])
      | Some msg \<Rightarrow>
          (case parse_control_message msg st of
             (st', True) \<Rightarrow> (st', [make_ack_json (ws_symbol st') (depth st') (push_ms st')])
           | (st', False) \<Rightarrow> (st', [])))"

section \<open>The latency histogram (pow2_histogram.hpp)\<close>

text \<open>\<open>uint64_t c[K]\<close> with \<open>K = 64\<close>, and the number \<open>n\<close> of recorded samples.\<close>

record Pow2Histogram =
  hist_c :: "64 word list"
  hist_n :: "64 word"

definition hist_K :: nat where
  "hist_K = 64"

definition empty_hist :: Pow2Histogram where
  "empty_hist = \<lparr>hist_c = replicate hist_K 0, hist_n = 0\<rparr>"

text \<open>\<open>__builtin_clzll\<close>: the number of zero bits above the highest set bit.\<close>

definition clzll :: "64 word \<Rightarrow> nat" where
  "clzll w = length (takeWhile (\<lambda>i. \<not> bit w i) (rev [0..<64]))"

definition bucket :: "64 word \<Rightarrow> nat" where
  "bucket ns =
     (if ns = 0 then 0
      else (let b = 63 - int (clzll ns);
                b1 = (if b < 0 then 0 else b);
                b2 = (if b1 > 63 then 63 else b1)
            in nat b2))"

definition hist_add :: "64 word \<Rightarrow> Pow2Histogram \<Rightarrow> Pow2Histogram" where
  "hist_add ns h =
     h\<lparr>hist_c := (hist_c h)[bucket ns := hist_c h ! bucket ns + 1], hist_n := hist_n h + 1\<rparr>"

text \<open>The loop of \<open>percentile\<close> from bucket \<open>b\<close> on, with the running sum \<open>cum\<close>.\<close>

function percentile_loop :: "64 word list \<Rightarrow> 64 word \<Rightarrow> nat \<Rightarrow> 64 word \<Rightarrow> 64 word" where
  "percentile_loop cs target b cum =
     (if b < hist_K
      then (let cum' = cum + cs ! b
            in if cum' \<ge> target
               then (if b \<ge> 63 then push_bit 63 1 else push_bit (b + 1) 1)
               else percentile_loop cs target (b + 1) cum')
      else push_bit 63 1)"
  by pat_completeness auto
termination
  by (relation "measure (\<lambda>(cs, target, b, cum). hist_K - b)") auto

declare percentile_loop.simps [simp del]

text \<open>
  \<open>percentile\<close>. The argument \<open>p\<close> is the real value of the double; \<open>fmul p n\<close> stands for
  the double expression \<open>p * (double)n\<close>, whose rounding the model leaves open. The cast to
  \<open>uint64_t\<close> truncates.
\<close>

definition percentile :: "(real \<Rightarrow> 64 word \<Rightarrow> real) \<Rightarrow> Pow2Histogram \<Rightarrow> real \<Rightarrow> 64 word" where
  "percentile fmul h p =
     (if hist_n h = 0 then 0
      else (let p1 = (if p < 0 then 0 else p);
                p2 = (if p1 > 1 then 1 else p1);
                target = (word_of_nat (nat \<lfloor>fmul p2 (hist_n h)\<rfloor>) :: 64 word);
                target' = (if target = 0 then 1 else target)
            in percentile_loop (hist_c h) target' 0 0))"

text \<open>The product computed without rounding: what \<open>p * (double)n\<close> is whenever \<open>p\<close>, \<open>n\<close>
  and their product are doubles.\<close>

definition exact_mul :: "real \<Rightarrow> 64 word \<Rightarrow> real" where
  "exact_mul p k = p * real (unat k)"

text \<open>The bucket numbers of the recorded samples, in increasing bucket order: bucket \<open>b\<close>
  holds \<open>c[b]\<close> of them.\<close>

definition bucket_order :: "Pow2Histogram \<Rightarrow> nat list" where
  "bucket_order h = concat (map (\<lambda>b. replicate (unat (hist_c h ! b)) b) [0..<hist_K])"

text \<open>The histogram after recording the samples \<open>xs\<close>, in order.\<close>

definition record_all :: "64 word list \<Rightarrow> Pow2Histogram" where
  "record_all xs = foldl (\<lambda>h x. hist_add x h) empty_hist xs"

section \<open>The order book: invariant and operations\<close>

lemma levels_set_levels [simp]:
  "levels buy (set_levels buy' m b) = (if buy = buy' then m else levels buy b)"
  by (simp add: levels_def set_levels_def)

lemma levels_upd [simp]:
  "levels buy (b\<lparr>nodes := n\<rparr>) = levels buy b"
  "levels buy (b\<lparr>index := i\<rparr>) = levels buy b"
  "levels buy (b\<lparr>next_node := k\<rparr>) = levels buy b"
  by (simp_all add: levels_def)

lemma set_levels_sel [simp]:
  "index (set_levels buy m b) = index b"
  "nodes (set_levels buy m b) = nodes b"
  "next_node (set_levels buy m b) = next_node b"
  "bk_symbol (set_levels buy m b) = bk_symbol b"
  by (simp_all add: set_levels_def)

lemma inv_index_level:
  "book_inv b \<Longrightarrow> index b oid = Some r \<Longrightarrow>
     \<exists>lvl. levels (is_buy r) b (ref_price r) = Some lvl \<and> it r \<in> set lvl"
  unfolding book_inv_def by blast

lemma inv_index_node:
  "book_inv b \<Longrightarrow> index b oid = Some r \<Longrightarrow>
     \<exists>ord. nodes b (it r) = Some ord \<and> order_id ord = oid \<and> price ord = ref_price r"
  unfolding book_inv_def by blast

lemma inv_level_node:
  "book_inv b \<Longrightarrow> levels buy b px = Some lvl \<Longrightarrow> h \<in> set lvl \<Longrightarrow>
     \<exists>ord. nodes b h = Some ord \<and>
        index b (order_id ord) = Some \<lparr>is_buy = buy, ref_price = px, it = h\<rparr>"
  unfolding book_inv_def by blast

lemma inv_level_shape:
  "book_inv b \<Longrightarrow> levels buy b px = Some lvl \<Longrightarrow> lvl \<noteq> [] \<and> distinct lvl"
  unfolding book_inv_def by blast

lemma inv_node_bound:
  "book_inv b \<Longrightarrow> nodes b h = Some ord \<Longrightarrow> h < next_node b"
  unfolding book_inv_def by blast


lemma inv_set_qty:
  assumes inv: "book_inv b" and h: "nodes b h = Some ord"
  shows "book_inv (b\<lparr>nodes := (nodes b)(h \<mapsto> ord\<lparr>qty := q\<rparr>)\<rparr>)"
proof -
  let ?b = "b\<lparr>nodes := (nodes b)(h \<mapsto> ord\<lparr>qty := q\<rparr>)\<rparr>"
  have node: "\<exists>o'. nodes ?b x = Some o' \<and> order_id o' = order_id od \<and> price o' = price od"
    if "nodes b x = Some od" for x od
    using that h by (cases "x = h") auto
  have c1: "\<exists>lvl. levels (is_buy r) ?b (ref_price r) = Some lvl \<and> it r \<in> set lvl"
    if "index ?b oid = Some r" for oid r
    using that inv_index_level [OF inv, of oid r] by simp
  have c2: "\<exists>o'. nodes ?b (it r) = Some o' \<and> order_id o' = oid \<and> price o' = ref_price r"
    if "index ?b oid = Some r" for oid r
  proof -
    from that obtain od where "nodes b (it r) = Some od" "order_id od = oid" "price od = ref_price r"
      using inv_index_node [OF inv, of oid r] by auto
    with node [of "it r" od] show ?thesis by auto
  qed
  have c3: "\<exists>o'. nodes ?b x = Some o' \<and>
              index ?b (order_id o') = Some \<lparr>is_buy = buy, ref_price = px, it = x\<rparr>"
    if "levels buy ?b px = Some lvl" "x \<in> set lvl" for buy px lvl x
  proof -
    from that obtain od where od: "nodes b x = Some od"
        "index b (order_id od) = Some \<lparr>is_buy = buy, ref_price = px, it = x\<rparr>"
      using inv_level_node [OF inv, of buy px lvl x] by auto
    with node [of x od] show ?thesis by auto
  qed
  have c4: "lvl \<noteq> [] \<and> distinct lvl" if "levels buy ?b px = Some lvl" for buy px lvl
    using that inv_level_shape [OF inv, of buy px lvl] by simp
  have c5: "x < next_node ?b" if "nodes ?b x = Some od" for x od
    using that inv_node_bound [OF inv, of x] h by (cases "x = h") auto
  show ?thesis
    unfolding book_inv_def using c1 c2 c3 c4 c5 by blast
qed

lemma insert_order_sel:
  "levels buy' (insert_order buy px oid q b) px' =
     (if buy' = buy \<and> px' = px
      then Some ((case levels buy b px of None \<Rightarrow> [] | Some l \<Rightarrow> l) @ [next_node b])
      else levels buy' b px')"
  "nodes (insert_order buy px oid q b) x =
     (if x = next_node b then Some \<lparr>order_id = oid, price = px, qty = q\<rparr> else nodes b x)"
  "index (insert_order buy px oid q b) k =
     (if k = oid then Some \<lparr>is_buy = buy, ref_price = px, it = next_node b\<rparr> else index b k)"
  "next_node (insert_order buy px oid q b) = Suc (next_node b)"
  "bk_symbol (insert_order buy px oid q b) = bk_symbol b"
  by (simp_all add: insert_order_def push_back_level_def Let_def)

lemma remove_order_sel:
  "levels buy' (remove_order oid r lvl b) px' =
     (if buy' = is_buy r \<and> px' = ref_price r
      then (if remove1 (it r) lvl = [] then None else Some (remove1 (it r) lvl))
      else levels buy' b px')"
  "nodes (remove_order oid r lvl b) x = (if x = it r then None else nodes b x)"
  "index (remove_order oid r lvl b) k = (if k = oid then None else index b k)"
  "next_node (remove_order oid r lvl b) = next_node b"
  "bk_symbol (remove_order oid r lvl b) = bk_symbol b"
  by (simp_all add: remove_order_def erase_cleanup_def Let_def)

lemma inv_insert:
  assumes inv: "book_inv b" and fresh: "index b oid = None"
  shows "book_inv (insert_order buy px oid q b)"
proof -
  let ?b = "insert_order buy px oid q b"
  let ?h = "next_node b"
  let ?q = "case levels buy b px of None \<Rightarrow> [] | Some l \<Rightarrow> l"
  have nh: "nodes b ?h = None"
    using inv_node_bound [OF inv, of ?h] by (cases "nodes b ?h") auto
  have lh: "?h \<notin> set lvl" if "levels buy' b px' = Some lvl" for buy' px' lvl
    using inv_level_node [OF inv that, of ?h] nh by auto
  have ih: "it r \<noteq> ?h" if "index b k = Some r" for k r
    using inv_index_node [OF inv that] nh by auto
  have c1: "\<exists>lvl. levels (is_buy r) ?b (ref_price r) = Some lvl \<and> it r \<in> set lvl"
    if "index ?b k = Some r" for k r
  proof (cases "k = oid")
    case True
    with that have "r = \<lparr>is_buy = buy, ref_price = px, it = ?h\<rparr>"
      by (simp add: insert_order_sel)
    then show ?thesis by (simp add: insert_order_sel)
  next
    case False
    with that have k: "index b k = Some r" by (simp add: insert_order_sel)
    then obtain lvl where "levels (is_buy r) b (ref_price r) = Some lvl" "it r \<in> set lvl"
      using inv_index_level [OF inv] by blast
    then show ?thesis by (auto simp: insert_order_sel)
  qed
  have c2: "\<exists>o'. nodes ?b (it r) = Some o' \<and> order_id o' = k \<and> price o' = ref_price r"
    if "index ?b k = Some r" for k r
  proof (cases "k = oid")
    case True
    with that show ?thesis by (auto simp: insert_order_sel)
  next
    case False
    with that have k: "index b k = Some r" by (simp add: insert_order_sel)
    then show ?thesis
      using inv_index_node [OF inv k] ih [OF k] by (simp add: insert_order_sel)
  qed
  have old: "\<exists>o'. nodes ?b x = Some o' \<and>
              index ?b (order_id o') = Some \<lparr>is_buy = buy', ref_price = px', it = x\<rparr>"
    if l: "levels buy' b px' = Some lvl" and x: "x \<in> set lvl" for buy' px' lvl x
  proof -
    from inv_level_node [OF inv l x] obtain o' where od: "nodes b x = Some o'"
        "index b (order_id o') = Some \<lparr>is_buy = buy', ref_price = px', it = x\<rparr>"
      by blast
    have "x \<noteq> ?h" using lh [OF l] x by auto
    moreover have "order_id o' \<noteq> oid" using od(2) fresh by auto
    ultimately show ?thesis using od by (simp add: insert_order_sel)
  qed
  have c3: "\<exists>o'. nodes ?b x = Some o' \<and>
              index ?b (order_id o') = Some \<lparr>is_buy = buy', ref_price = px', it = x\<rparr>"
    if l: "levels buy' ?b px' = Some lvl" and x: "x \<in> set lvl" for buy' px' lvl x
  proof (cases "buy' = buy \<and> px' = px")
    case True
    with l have lvl: "lvl = ?q @ [?h]" by (simp add: insert_order_sel)
    show ?thesis
    proof (cases "x = ?h")
      case True
      with \<open>buy' = buy \<and> px' = px\<close> show ?thesis by (simp add: insert_order_sel)
    next
      case False
      with x lvl have "x \<in> set ?q" by simp
      then obtain l0 where "levels buy b px = Some l0" "x \<in> set l0"
        by (cases "levels buy b px") auto
      with old [of buy px l0 x] True show ?thesis by simp
    qed
  next
    case False
    with l have "levels buy' b px' = Some lvl" by (auto simp: insert_order_sel split: if_splits)
    with old x show ?thesis by blast
  qed
  have c4: "lvl \<noteq> [] \<and> distinct lvl" if l: "levels buy' ?b px' = Some lvl" for buy' px' lvl
  proof (cases "buy' = buy \<and> px' = px")
    case True
    with l have lvl: "lvl = ?q @ [?h]" by (simp add: insert_order_sel)
    have "distinct ?q \<and> ?h \<notin> set ?q"
      using inv_level_shape [OF inv, of buy px] lh [of buy px]
      by (cases "levels buy b px") auto
    with lvl show ?thesis by simp
  next
    case False
    with l have "levels buy' b px' = Some lvl" by (auto simp: insert_order_sel split: if_splits)
    then show ?thesis using inv_level_shape [OF inv] by blast
  qed
  have c5: "x < next_node ?b" if "nodes ?b x = Some o'" for x o'
    using that inv_node_bound [OF inv, of x o']
    by (cases "x = ?h") (auto simp: insert_order_sel)
  show ?thesis
    unfolding book_inv_def using c1 c2 c3 c4 c5 by blast
qed

lemma inv_remove:
  assumes inv: "book_inv b" and r: "index b oid = Some r"
    and lvl: "levels (is_buy r) b (ref_price r) = Some lvl"
  shows "book_inv (remove_order oid r lvl b)"
proof -
  let ?b = "remove_order oid r lvl b"
  let ?h = "it r"
  from inv_index_node [OF inv r] obtain ord where ord: "nodes b ?h = Some ord" "order_id ord = oid"
    by blast
  have dl: "distinct lvl" using inv_level_shape [OF inv lvl] by simp
  have u1: "k = oid" if "index b k = Some r'" "it r' = ?h" for k r'
    using inv_index_node [OF inv that(1)] that(2) ord by auto
  have u2: "buy' = is_buy r \<and> px' = ref_price r"
    if l: "levels buy' b px' = Some l'" and x: "?h \<in> set l'" for buy' px' l'
  proof -
    from inv_level_node [OF inv l x] ord r
    have "r = \<lparr>is_buy = buy', ref_price = px', it = ?h\<rparr>" by auto
    then show ?thesis by (metis OrderRef.select_convs(1,2))
  qed
  have c1: "\<exists>l'. levels (is_buy r') ?b (ref_price r') = Some l' \<and> it r' \<in> set l'"
    if "index ?b k = Some r'" for k r'
  proof -
    from that have k: "k \<noteq> oid" "index b k = Some r'"
      by (auto simp: remove_order_sel split: if_splits)
    then have ne: "it r' \<noteq> ?h" using u1 by blast
    from inv_index_level [OF inv k(2)] obtain l' where
      l': "levels (is_buy r') b (ref_price r') = Some l'" "it r' \<in> set l'" by blast
    show ?thesis
    proof (cases "is_buy r' = is_buy r \<and> ref_price r' = ref_price r")
      case True
      with l' lvl have "l' = lvl" by simp
      with l' ne have "it r' \<in> set (remove1 ?h lvl)" by simp
      with True show ?thesis by (auto simp: remove_order_sel)
    next
      case False
      with l' show ?thesis by (auto simp: remove_order_sel)
    qed
  qed
  have c2: "\<exists>o'. nodes ?b (it r') = Some o' \<and> order_id o' = k \<and> price o' = ref_price r'"
    if "index ?b k = Some r'" for k r'
  proof -
    from that have k: "k \<noteq> oid" "index b k = Some r'"
      by (auto simp: remove_order_sel split: if_splits)
    then have "it r' \<noteq> ?h" using u1 by blast
    then show ?thesis using inv_index_node [OF inv k(2)] by (simp add: remove_order_sel)
  qed
  have old: "\<exists>o'. nodes ?b x = Some o' \<and>
              index ?b (order_id o') = Some \<lparr>is_buy = buy', ref_price = px', it = x\<rparr>"
    if l: "levels buy' b px' = Some l'" and x: "x \<in> set l'" and ne: "x \<noteq> ?h"
    for buy' px' l' x
  proof -
    from inv_level_node [OF inv l x] obtain o' where od: "nodes b x = Some o'"
        "index b (order_id o') = Some \<lparr>is_buy = buy', ref_price = px', it = x\<rparr>"
      by blast
    have "order_id o' \<noteq> oid" using od(2) r ne by auto
    with od ne show ?thesis by (simp add: remove_order_sel)
  qed
  have c3: "\<exists>o'. nodes ?b x = Some o' \<and>
              index ?b (order_id o') = Some \<lparr>is_buy = buy', ref_price = px', it = x\<rparr>"
    if l: "levels buy' ?b px' = Some l'" and x: "x \<in> set l'" for buy' px' l' x
  proof (cases "buy' = is_buy r \<and> px' = ref_price r")
    case True
    with l have l': "l' = remove1 ?h lvl"
      by (auto simp: remove_order_sel split: if_splits)
    with x dl have "x \<in> set lvl" "x \<noteq> ?h" by auto
    with old [OF lvl] True show ?thesis by simp
  next
    case False
    with l have l0: "levels buy' b px' = Some l'"
      by (auto simp: remove_order_sel split: if_splits)
    with u2 [OF l0] False x have "x \<noteq> ?h" by auto
    with old [OF l0 x] show ?thesis by simp
  qed
  have c4: "l' \<noteq> [] \<and> distinct l'" if l: "levels buy' ?b px' = Some l'" for buy' px' l'
  proof (cases "buy' = is_buy r \<and> px' = ref_price r")
    case True
    with l dl show ?thesis by (auto simp: remove_order_sel split: if_splits)
  next
    case False
    with l have "levels buy' b px' = Some l'"
      by (auto simp: remove_order_sel split: if_splits)
    then show ?thesis using inv_level_shape [OF inv] by blast
  qed
  have c5: "x < next_node ?b" if "nodes ?b x = Some o'" for x o'
    using that inv_node_bound [OF inv, of x o']
    by (auto simp: remove_order_sel split: if_splits)
  show ?thesis
    unfolding book_inv_def using c1 c2 c3 c4 c5 by blast
qed


lemma book_add_new:
  "index b (ev_order_id e) = None \<Longrightarrow>
   book_add e b = insert_order (is_buy_side (side e)) (ev_price e) (ev_order_id e) (ev_size e) b"
  by (simp add: book_add_def insert_order_def push_back_level_def emplace_def Let_def)

lemma book_add_dup:
  "index b (ev_order_id e) = Some r \<Longrightarrow> levels (is_buy r) b (ref_price r) = Some lvl \<Longrightarrow>
   book_add e b = insert_order (is_buy_side (side e)) (ev_price e) (ev_order_id e) (ev_size e)
                    (remove_order (ev_order_id e) r lvl b)"
  by (simp add: book_add_def insert_order_def remove_order_def push_back_level_def
        erase_cleanup_def emplace_def Let_def)

lemma book_cancel_full:
  "index b (ev_order_id e) = Some r \<Longrightarrow> levels (is_buy r) b (ref_price r) = Some lvl \<Longrightarrow>
   nodes b (it r) = Some ord \<Longrightarrow> qty ord \<le>s ev_size e \<Longrightarrow>
   book_cancel e b = remove_order (ev_order_id e) r lvl b"
  by (simp add: book_cancel_def remove_order_def erase_cleanup_def Let_def)

lemma book_cancel_partial:
  "index b (ev_order_id e) = Some r \<Longrightarrow> levels (is_buy r) b (ref_price r) = Some lvl \<Longrightarrow>
   nodes b (it r) = Some ord \<Longrightarrow> \<not> qty ord \<le>s ev_size e \<Longrightarrow>
   book_cancel e b = b\<lparr>nodes := (nodes b)(it r \<mapsto> ord\<lparr>qty := qty ord - ev_size e\<rparr>)\<rparr>"
  by (auto simp add: book_cancel_def Let_def)

lemma book_modify_move:
  assumes "index b (ev_order_id e) = Some r" "is_buy_side (side e) = is_buy r"
    "levels (is_buy r) b (ref_price r) = Some lvl" "nodes b (it r) = Some ord"
    "ev_price e \<noteq> ref_price r"
  shows "book_modify e b = insert_order (is_buy r) (ev_price e) (ev_order_id e) (ev_size e)
                    (remove_order (ev_order_id e) r lvl b)"
  using assms
  by (cases r) (simp add: book_modify_def insert_order_def remove_order_def push_back_level_def
        erase_cleanup_def set_levels_def levels_def Let_def)

lemma book_modify_grow:
  assumes "index b (ev_order_id e) = Some r" "is_buy_side (side e) = is_buy r"
    "levels (is_buy r) b (ref_price r) = Some lvl" "nodes b (it r) = Some ord"
    "ev_price e = ref_price r" "qty ord <s ev_size e"
  shows "book_modify e b = insert_order (is_buy r) (ref_price r) (ev_order_id e) (ev_size e)
                    (remove_order (ev_order_id e) r lvl b)"
  using assms
  by (cases r) (simp add: book_modify_def insert_order_def remove_order_def push_back_level_def
        erase_cleanup_def set_levels_def levels_def Let_def)

lemma book_modify_inplace:
  assumes "index b (ev_order_id e) = Some r" "is_buy_side (side e) = is_buy r"
    "nodes b (it r) = Some ord"
    "ev_price e = ref_price r" "\<not> qty ord <s ev_size e"
  shows "book_modify e b = b\<lparr>nodes := (nodes b)(it r \<mapsto> ord\<lparr>qty := ev_size e\<rparr>)\<rparr>"
  using assms by (simp add: book_modify_def Let_def)

lemma inv_new_book: "book_inv (new_book nm)"
  by (simp add: book_inv_def new_book_def levels_def)

lemma inv_clear: "book_inv (book_clear b)"
  by (simp add: book_inv_def book_clear_def levels_def)

lemma inv_add: assumes inv: "book_inv b" shows "book_inv (book_add e b)"
proof (cases "index b (ev_order_id e)")
  case None
  then show ?thesis by (simp add: book_add_new inv_insert [OF inv])
next
  case (Some r)
  from inv_index_level [OF inv Some] obtain lvl where
    lvl: "levels (is_buy r) b (ref_price r) = Some lvl" by blast
  have "index (remove_order (ev_order_id e) r lvl b) (ev_order_id e) = None"
    by (simp add: remove_order_sel)
  then show ?thesis
    using inv_insert [OF inv_remove [OF inv Some lvl]] by (simp add: book_add_dup [OF Some lvl])
qed

lemma inv_cancel: assumes inv: "book_inv b" shows "book_inv (book_cancel e b)"
proof (cases "index b (ev_order_id e)")
  case None
  then show ?thesis by (simp add: book_cancel_def inv)
next
  case (Some r)
  from inv_index_level [OF inv Some] obtain lvl where
    lvl: "levels (is_buy r) b (ref_price r) = Some lvl" by blast
  from inv_index_node [OF inv Some] obtain ord where ord: "nodes b (it r) = Some ord" by blast
  show ?thesis
  proof (cases "qty ord \<le>s ev_size e")
    case True
    then show ?thesis
      using inv_remove [OF inv Some lvl] by (simp add: book_cancel_full [OF Some lvl ord])
  next
    case False
    then show ?thesis
      using inv_set_qty [OF inv ord] by (simp add: book_cancel_partial [OF Some lvl ord])
  qed
qed

lemma inv_modify: assumes inv: "book_inv b" shows "book_inv (book_modify e b)"
proof (cases "index b (ev_order_id e)")
  case None
  then show ?thesis by (simp add: book_modify_def inv_add [OF inv])
next
  case (Some r)
  from inv_index_level [OF inv Some] obtain lvl where
    lvl: "levels (is_buy r) b (ref_price r) = Some lvl" by blast
  from inv_index_node [OF inv Some] obtain ord where ord: "nodes b (it r) = Some ord" by blast
  have gone: "index (remove_order (ev_order_id e) r lvl b) (ev_order_id e) = None"
    by (simp add: remove_order_sel)
  note reinsert = inv_insert [OF inv_remove [OF inv Some lvl] gone]
  consider (mismatch) "is_buy_side (side e) \<noteq> is_buy r"
    | (move) "is_buy_side (side e) = is_buy r" "ev_price e \<noteq> ref_price r"
    | (grow) "is_buy_side (side e) = is_buy r" "ev_price e = ref_price r" "qty ord <s ev_size e"
    | (inplace) "is_buy_side (side e) = is_buy r" "ev_price e = ref_price r"
        "\<not> qty ord <s ev_size e"
    by blast
  then show ?thesis
  proof cases
    case mismatch
    then show ?thesis using Some inv by (simp add: book_modify_def)
  next
    case move
    then show ?thesis using reinsert by (simp add: book_modify_move [OF Some _ lvl ord])
  next
    case grow
    then show ?thesis using reinsert by (simp add: book_modify_grow [OF Some _ lvl ord])
  next
    case inplace
    then show ?thesis
      using inv_set_qty [OF inv ord] by (simp add: book_modify_inplace [OF Some _ ord])
  qed
qed

lemma inv_apply_event: "book_inv b \<Longrightarrow> book_inv (apply_event e b)"
  by (simp add: apply_event_def inv_clear inv_add inv_cancel inv_modify)

lemma inv_run_events: "book_inv b \<Longrightarrow> book_inv (run_events es b)"
  unfolding run_events_def by (induction es arbitrary: b) (simp_all add: inv_apply_event)


lemmas book_eval =
  run_events_def apply_event_def book_add_def book_cancel_def book_modify_def book_clear_def
  mk_event_def new_book_def levels_def set_levels_def push_back_level_def emplace_def
  erase_cleanup_def is_buy_side_def Let_def

subsection \<open>Index consistency\<close>

text \<open>
  C1. Whatever finite sequence of events is applied to a newly constructed book, every
  entry of the index of the resulting book refers to a node present in the level keyed by
  the entry's price on the entry's side, and the order stored in that node has the index
  key as its id and the level's key as its price. The sequence is arbitrary, so the
  statement holds after each applied event.
\<close>

theorem index_consistency:
  assumes "index (run_events es (new_book nm)) oid = Some r"
  shows "\<exists>lvl ord. levels (is_buy r) (run_events es (new_book nm)) (ref_price r) = Some lvl \<and>
           it r \<in> set lvl \<and>
           nodes (run_events es (new_book nm)) (it r) = Some ord \<and>
           order_id ord = oid \<and> price ord = ref_price r"
proof -
  have inv: "book_inv (run_events es (new_book nm))"
    by (rule inv_run_events [OF inv_new_book])
  from inv_index_level [OF inv assms] inv_index_node [OF inv assms] show ?thesis by blast
qed

theorem index_consistency_witness:
  "index (run_events [mk_event CHR ''A'' CHR ''B'' 100 5 1, mk_event CHR ''A'' CHR ''B'' 100 3 2]
            (new_book [])) 2 = Some \<lparr>is_buy = True, ref_price = 100, it = 1\<rparr> \<and>
   (\<exists>lvl ord. levels True (run_events [mk_event CHR ''A'' CHR ''B'' 100 5 1,
                   mk_event CHR ''A'' CHR ''B'' 100 3 2] (new_book [])) 100 = Some lvl \<and>
       1 \<in> set lvl \<and>
       nodes (run_events [mk_event CHR ''A'' CHR ''B'' 100 5 1,
                 mk_event CHR ''A'' CHR ''B'' 100 3 2] (new_book [])) 1 = Some ord \<and>
       order_id ord = 2 \<and> price ord = 100)"
proof -
  let ?b = "run_events [mk_event CHR ''A'' CHR ''B'' 100 5 1, mk_event CHR ''A'' CHR ''B'' 100 3 2]
              (new_book [])"
  have h: "index ?b 2 = Some \<lparr>is_buy = True, ref_price = 100, it = 1\<rparr>"
    by (simp add: book_eval)
  from index_consistency [OF h] h show ?thesis by simp
qed

subsection \<open>The two sides of the book\<close>

text \<open>
  The book never compares the two sides: adding a bid and then an ask at the same price
  leaves a non-empty level at that price on both sides.
\<close>

theorem same_price_both_sides:
  "bids (run_events [mk_event CHR ''A'' CHR ''B'' 100 5 1, mk_event CHR ''A'' CHR ''A'' 100 5 2]
           (new_book [])) 100 = Some [0] \<and>
   asks (run_events [mk_event CHR ''A'' CHR ''B'' 100 5 1, mk_event CHR ''A'' CHR ''A'' 100 5 2]
           (new_book [])) 100 = Some [1]"
  by (simp add: book_eval)

text \<open>
  C4 (amended). Whatever finite sequence of events is applied to a newly constructed
  book, no order rests on both sides at once: a node of a bid level and a node of an ask
  level are different nodes and hold orders of different ids.
\<close>

theorem no_order_on_both_sides:
  assumes "bids (run_events es (new_book nm)) pb = Some lb"
    and "asks (run_events es (new_book nm)) pa = Some la"
    and "hb \<in> set lb" and "ha \<in> set la"
  shows "hb \<noteq> ha \<and>
         (\<exists>ob oa. nodes (run_events es (new_book nm)) hb = Some ob \<and>
                  nodes (run_events es (new_book nm)) ha = Some oa \<and>
                  order_id ob \<noteq> order_id oa)"
proof -
  let ?b = "run_events es (new_book nm)"
  have inv: "book_inv ?b" by (rule inv_run_events [OF inv_new_book])
  from assms(1) have lb: "levels True ?b pb = Some lb" by (simp add: levels_def)
  from assms(2) have la: "levels False ?b pa = Some la" by (simp add: levels_def)
  from inv_level_node [OF inv lb assms(3)] obtain ob where
    ob: "nodes ?b hb = Some ob"
        "index ?b (order_id ob) = Some \<lparr>is_buy = True, ref_price = pb, it = hb\<rparr>" by blast
  from inv_level_node [OF inv la assms(4)] obtain oa where
    oa: "nodes ?b ha = Some oa"
        "index ?b (order_id oa) = Some \<lparr>is_buy = False, ref_price = pa, it = ha\<rparr>" by blast
  have "order_id ob \<noteq> order_id oa" using ob(2) oa(2) by auto
  moreover have "hb \<noteq> ha" using ob oa by auto
  ultimately show ?thesis using ob(1) oa(1) by blast
qed


theorem no_order_on_both_sides_witness:
  "bids (run_events [mk_event CHR ''A'' CHR ''B'' 100 5 1, mk_event CHR ''A'' CHR ''A'' 101 4 2]
           (new_book [])) 100 = Some [0] \<and>
   asks (run_events [mk_event CHR ''A'' CHR ''B'' 100 5 1, mk_event CHR ''A'' CHR ''A'' 101 4 2]
           (new_book [])) 101 = Some [1] \<and>
   (0::nat) \<noteq> 1 \<and>
   (\<exists>ob oa. nodes (run_events [mk_event CHR ''A'' CHR ''B'' 100 5 1,
                 mk_event CHR ''A'' CHR ''A'' 101 4 2] (new_book [])) 0 = Some ob \<and>
            nodes (run_events [mk_event CHR ''A'' CHR ''B'' 100 5 1,
                 mk_event CHR ''A'' CHR ''A'' 101 4 2] (new_book [])) 1 = Some oa \<and>
            order_id ob \<noteq> order_id oa)"
proof -
  let ?b = "run_events [mk_event CHR ''A'' CHR ''B'' 100 5 1, mk_event CHR ''A'' CHR ''A'' 101 4 2]
              (new_book [])"
  have hb: "bids ?b 100 = Some [0]" by (simp add: book_eval)
  have ha: "asks ?b 101 = Some [1]" by (simp add: book_eval)
  from no_order_on_both_sides [OF hb ha, of 0 1] hb ha show ?thesis by simp
qed


subsection \<open>Cancel and modify on a well-formed book\<close>

lemma sint_sub_exact:
  fixes x y :: int32
  assumes "0 \<le> sint y" "sint y < sint x"
  shows "sint (x - y) = sint x - sint y"
proof -
  have "sint x < 2 ^ 31" using sint_lt [of x] by simp
  with assms have "- (2 ^ 31) \<le> sint x - sint y" "sint x - sint y < 2 ^ 31" by auto
  then have "signed_take_bit 31 (sint x - sint y) = sint x - sint y"
    by (simp add: signed_take_bit_int_eq_self)
  then show ?thesis by (simp add: sint_word_ariths)
qed

lemma levels_remove_order:
  "levels (is_buy r) (remove_order oid r lvl b) =
     (levels (is_buy r) b)(ref_price r :=
        (if remove1 (it r) lvl = [] then None else Some (remove1 (it r) lvl)))"
  "levels (\<not> is_buy r) (remove_order oid r lvl b) = levels (\<not> is_buy r) b"
  by (auto simp: remove_order_sel fun_eq_iff)

lemma nodes_index_remove_order:
  "nodes (remove_order oid r lvl b) = (nodes b)(it r := None)"
  "index (remove_order oid r lvl b) = (index b)(oid := None)"
  by (auto simp: remove_order_sel fun_eq_iff)

lemma levels_insert_order:
  "levels buy (insert_order buy px oid q b) =
     (levels buy b)(px \<mapsto> (case levels buy b px of None \<Rightarrow> [] | Some l \<Rightarrow> l) @ [next_node b])"
  "levels (\<not> buy) (insert_order buy px oid q b) = levels (\<not> buy) b"
  by (auto simp: insert_order_sel fun_eq_iff)

lemma nodes_index_insert_order:
  "nodes (insert_order buy px oid q b) =
     (nodes b)(next_node b \<mapsto> \<lparr>order_id = oid, price = px, qty = q\<rparr>)"
  "index (insert_order buy px oid q b) =
     (index b)(oid \<mapsto> \<lparr>is_buy = buy, ref_price = px, it = next_node b\<rparr>)"
  by (auto simp: insert_order_sel fun_eq_iff)

lemma apply_cancel:
  "action e = CHR ''C'' \<Longrightarrow> side e = CHR ''B'' \<or> side e = CHR ''A'' \<Longrightarrow>
   apply_event e b = book_cancel e b"
  by (auto simp: apply_event_def)

lemma apply_modify:
  "action e = CHR ''M'' \<Longrightarrow> side e = CHR ''B'' \<or> side e = CHR ''A'' \<Longrightarrow>
   apply_event e b = book_modify e b"
  by (auto simp: apply_event_def)

text \<open>
  C2. A cancel event (action \<open>C\<close>, side \<open>B\<close> or \<open>A\<close>) on a well-formed book. If the
  order id is not in the index, the book is unchanged. Otherwise the index entry names a
  node of its level; if the event's size is at least the resting quantity (as signed
  32-bit values) the node leaves its level, the level is deleted when it became empty,
  the index entry is erased and nothing else changes; if not, the book changes only in
  the quantity of that node, which becomes the old quantity minus the event's size, so
  every level keeps its nodes in their order. The difference is the 32-bit one; for a
  non-negative size it is the difference of the integers.
\<close>

theorem cancel_semantics:
  assumes inv: "book_inv b" and act: "action e = CHR ''C''"
    and sd: "side e = CHR ''B'' \<or> side e = CHR ''A''"
  shows "case index b (ev_order_id e) of
           None \<Rightarrow> apply_event e b = b
         | Some r \<Rightarrow>
             (\<exists>lvl ord.
                levels (is_buy r) b (ref_price r) = Some lvl \<and> it r \<in> set lvl \<and>
                nodes b (it r) = Some ord \<and> order_id ord = ev_order_id e \<and>
                (if sint (qty ord) \<le> sint (ev_size e)
                 then levels (is_buy r) (apply_event e b) =
                        (levels (is_buy r) b)(ref_price r :=
                           (if remove1 (it r) lvl = [] then None
                            else Some (remove1 (it r) lvl))) \<and>
                      levels (\<not> is_buy r) (apply_event e b) = levels (\<not> is_buy r) b \<and>
                      index (apply_event e b) = (index b)(ev_order_id e := None) \<and>
                      nodes (apply_event e b) = (nodes b)(it r := None) \<and>
                      next_node (apply_event e b) = next_node b \<and>
                      bk_symbol (apply_event e b) = bk_symbol b
                 else apply_event e b =
                        b\<lparr>nodes := (nodes b)(it r \<mapsto> ord\<lparr>qty := qty ord - ev_size e\<rparr>)\<rparr> \<and>
                      (if 0 \<le> sint (ev_size e)
                       then sint (qty ord - ev_size e) = sint (qty ord) - sint (ev_size e)
                       else True)))"
proof (cases "index b (ev_order_id e)")
  case None
  then show ?thesis using act sd by (simp add: apply_cancel book_cancel_def)
next
  case (Some r)
  from inv_index_level [OF inv Some] obtain lvl where
    lvl: "levels (is_buy r) b (ref_price r) = Some lvl" "it r \<in> set lvl" by blast
  from inv_index_node [OF inv Some] obtain ord where
    ord: "nodes b (it r) = Some ord" "order_id ord = ev_order_id e" by blast
  have ap: "apply_event e b = book_cancel e b" using act sd by (rule apply_cancel)
  show ?thesis
  proof (cases "sint (qty ord) \<le> sint (ev_size e)")
    case True
    then have "book_cancel e b = remove_order (ev_order_id e) r lvl b"
      using book_cancel_full [OF Some lvl(1) ord(1)] by (simp add: word_sle_eq)
    with True Some lvl ord ap show ?thesis
      by (simp add: levels_remove_order nodes_index_remove_order remove_order_sel)
  next
    case False
    then have "book_cancel e b = b\<lparr>nodes := (nodes b)(it r \<mapsto> ord\<lparr>qty := qty ord - ev_size e\<rparr>)\<rparr>"
      using book_cancel_partial [OF Some lvl(1) ord(1)] by (simp add: word_sle_eq)
    moreover have "sint (qty ord - ev_size e) = sint (qty ord) - sint (ev_size e)"
      if "0 \<le> sint (ev_size e)"
      using that False by (intro sint_sub_exact) auto
    ultimately show ?thesis using False Some lvl ord ap by simp
  qed
qed

text \<open>
  C3. A modify event (action \<open>M\<close>) for an order of the index whose recorded side is the
  event's side, on a well-formed book. If the price differs, the node leaves its level
  (deleted when it became empty) and a new node with the event's price and size is
  appended to the tail of the level at the event's price; if the price is the same and
  the size is greater than the resting quantity, the node leaves its level and a new node
  with the event's size is appended to the tail of the same level; in both cases the index
  entry follows the new node. Otherwise only the quantity of the node changes, to the
  event's size, and every level keeps its nodes in their order.
\<close>

theorem modify_semantics:
  assumes inv: "book_inv b" and act: "action e = CHR ''M''"
    and sd: "side e = CHR ''B'' \<or> side e = CHR ''A''"
    and r: "index b (ev_order_id e) = Some r"
    and match: "is_buy r = (side e = CHR ''B'')"
  shows "\<exists>lvl ord.
           levels (is_buy r) b (ref_price r) = Some lvl \<and> it r \<in> set lvl \<and>
           nodes b (it r) = Some ord \<and> order_id ord = ev_order_id e \<and>
           price ord = ref_price r \<and>
           (if ev_price e \<noteq> ref_price r
            then levels (is_buy r) (apply_event e b) =
                   ((levels (is_buy r) b)(ref_price r :=
                       (if remove1 (it r) lvl = [] then None else Some (remove1 (it r) lvl))))
                   (ev_price e \<mapsto>
                       (case levels (is_buy r) b (ev_price e) of None \<Rightarrow> [] | Some l \<Rightarrow> l)
                       @ [next_node b]) \<and>
                 levels (\<not> is_buy r) (apply_event e b) = levels (\<not> is_buy r) b \<and>
                 nodes (apply_event e b) =
                   (nodes b)(it r := None, next_node b \<mapsto>
                      \<lparr>order_id = ev_order_id e, price = ev_price e, qty = ev_size e\<rparr>) \<and>
                 index (apply_event e b) =
                   (index b)(ev_order_id e \<mapsto>
                      \<lparr>is_buy = is_buy r, ref_price = ev_price e, it = next_node b\<rparr>) \<and>
                 next_node (apply_event e b) = Suc (next_node b) \<and>
                 bk_symbol (apply_event e b) = bk_symbol b
            else if sint (qty ord) < sint (ev_size e)
            then levels (is_buy r) (apply_event e b) =
                   (levels (is_buy r) b)(ref_price r \<mapsto> remove1 (it r) lvl @ [next_node b]) \<and>
                 levels (\<not> is_buy r) (apply_event e b) = levels (\<not> is_buy r) b \<and>
                 nodes (apply_event e b) =
                   (nodes b)(it r := None, next_node b \<mapsto>
                      \<lparr>order_id = ev_order_id e, price = ref_price r, qty = ev_size e\<rparr>) \<and>
                 index (apply_event e b) =
                   (index b)(ev_order_id e \<mapsto>
                      \<lparr>is_buy = is_buy r, ref_price = ref_price r, it = next_node b\<rparr>) \<and>
                 next_node (apply_event e b) = Suc (next_node b) \<and>
                 bk_symbol (apply_event e b) = bk_symbol b
            else apply_event e b = b\<lparr>nodes := (nodes b)(it r \<mapsto> ord\<lparr>qty := ev_size e\<rparr>)\<rparr>)"
proof -
  from inv_index_level [OF inv r] obtain lvl where
    lvl: "levels (is_buy r) b (ref_price r) = Some lvl" "it r \<in> set lvl" by blast
  from inv_index_node [OF inv r] obtain ord where
    ord: "nodes b (it r) = Some ord" "order_id ord = ev_order_id e" "price ord = ref_price r"
    by blast
  have ap: "apply_event e b = book_modify e b" using act sd by (rule apply_modify)
  have m: "is_buy_side (side e) = is_buy r" using match by (simp add: is_buy_side_def)
  let ?rm = "remove_order (ev_order_id e) r lvl b"
  consider (move) "ev_price e \<noteq> ref_price r"
    | (grow) "ev_price e = ref_price r" "sint (qty ord) < sint (ev_size e)"
    | (inplace) "ev_price e = ref_price r" "\<not> sint (qty ord) < sint (ev_size e)"
    by blast
  then have "if ev_price e \<noteq> ref_price r
            then levels (is_buy r) (apply_event e b) =
                   ((levels (is_buy r) b)(ref_price r :=
                       (if remove1 (it r) lvl = [] then None else Some (remove1 (it r) lvl))))
                   (ev_price e \<mapsto>
                       (case levels (is_buy r) b (ev_price e) of None \<Rightarrow> [] | Some l \<Rightarrow> l)
                       @ [next_node b]) \<and>
                 levels (\<not> is_buy r) (apply_event e b) = levels (\<not> is_buy r) b \<and>
                 nodes (apply_event e b) =
                   (nodes b)(it r := None, next_node b \<mapsto>
                      \<lparr>order_id = ev_order_id e, price = ev_price e, qty = ev_size e\<rparr>) \<and>
                 index (apply_event e b) =
                   (index b)(ev_order_id e \<mapsto>
                      \<lparr>is_buy = is_buy r, ref_price = ev_price e, it = next_node b\<rparr>) \<and>
                 next_node (apply_event e b) = Suc (next_node b) \<and>
                 bk_symbol (apply_event e b) = bk_symbol b
            else if sint (qty ord) < sint (ev_size e)
            then levels (is_buy r) (apply_event e b) =
                   (levels (is_buy r) b)(ref_price r \<mapsto> remove1 (it r) lvl @ [next_node b]) \<and>
                 levels (\<not> is_buy r) (apply_event e b) = levels (\<not> is_buy r) b \<and>
                 nodes (apply_event e b) =
                   (nodes b)(it r := None, next_node b \<mapsto>
                      \<lparr>order_id = ev_order_id e, price = ref_price r, qty = ev_size e\<rparr>) \<and>
                 index (apply_event e b) =
                   (index b)(ev_order_id e \<mapsto>
                      \<lparr>is_buy = is_buy r, ref_price = ref_price r, it = next_node b\<rparr>) \<and>
                 next_node (apply_event e b) = Suc (next_node b) \<and>
                 bk_symbol (apply_event e b) = bk_symbol b
            else apply_event e b = b\<lparr>nodes := (nodes b)(it r \<mapsto> ord\<lparr>qty := ev_size e\<rparr>)\<rparr>"
  proof cases
    case move
    have "apply_event e b = insert_order (is_buy r) (ev_price e) (ev_order_id e) (ev_size e) ?rm"
      using book_modify_move [OF r m lvl(1) ord(1) move] ap by simp
    with move show ?thesis
      by (simp add: levels_insert_order nodes_index_insert_order insert_order_sel
            levels_remove_order nodes_index_remove_order remove_order_sel)
  next
    case grow
    have "apply_event e b = insert_order (is_buy r) (ref_price r) (ev_order_id e) (ev_size e) ?rm"
      using book_modify_grow [OF r m lvl(1) ord(1) grow(1)] grow(2) ap
      by (simp add: word_sless_alt)
    with grow show ?thesis
      by (simp add: levels_insert_order nodes_index_insert_order insert_order_sel
            levels_remove_order nodes_index_remove_order remove_order_sel)
  next
    case inplace
    have "apply_event e b = b\<lparr>nodes := (nodes b)(it r \<mapsto> ord\<lparr>qty := ev_size e\<rparr>)\<rparr>"
      using book_modify_inplace [OF r m ord(1) inplace(1)] inplace(2) ap
      by (simp add: word_sless_alt)
    with inplace show ?thesis by simp
  qed
  with lvl ord show ?thesis by blast
qed


lemma level_ct_length: "level_ct lvl = of_nat (length lvl)"
proof -
  have "foldl (\<lambda>ct h. ct + 1) (a :: int64) lvl = a + of_nat (length lvl)" for a
    by (induction lvl arbitrary: a) (simp_all add: algebra_simps)
  from this [of 0] show ?thesis by (simp add: level_ct_def)
qed

theorem cancel_semantics_witness:
  "book_inv (run_events [mk_event CHR ''A'' CHR ''B'' 100 5 1, mk_event CHR ''A'' CHR ''B'' 100 7 2]
       (new_book [])) \<and>
   action (mk_event CHR ''C'' CHR ''B'' 100 2 1) = CHR ''C'' \<and>
   side (mk_event CHR ''C'' CHR ''B'' 100 2 1) = CHR ''B'' \<and>
   apply_event (mk_event CHR ''C'' CHR ''B'' 100 2 1)
     (run_events [mk_event CHR ''A'' CHR ''B'' 100 5 1, mk_event CHR ''A'' CHR ''B'' 100 7 2]
        (new_book [])) =
   (run_events [mk_event CHR ''A'' CHR ''B'' 100 5 1, mk_event CHR ''A'' CHR ''B'' 100 7 2]
        (new_book []))
     \<lparr>nodes := (nodes (run_events [mk_event CHR ''A'' CHR ''B'' 100 5 1,
                   mk_event CHR ''A'' CHR ''B'' 100 7 2] (new_book [])))
                (0 \<mapsto> \<lparr>order_id = 1, price = 100, qty = 3\<rparr>)\<rparr>"
proof -
  let ?b = "run_events [mk_event CHR ''A'' CHR ''B'' 100 5 1, mk_event CHR ''A'' CHR ''B'' 100 7 2]
              (new_book [])"
  let ?e = "mk_event CHR ''C'' CHR ''B'' 100 2 1"
  have inv: "book_inv ?b" by (rule inv_run_events [OF inv_new_book])
  have act: "action ?e = CHR ''C''" by (simp add: mk_event_def)
  have sd: "side ?e = CHR ''B'' \<or> side ?e = CHR ''A''" by (simp add: mk_event_def)
  have idx: "index ?b (ev_order_id ?e) = Some \<lparr>is_buy = True, ref_price = 100, it = 0\<rparr>"
    by (simp add: book_eval)
  have nd: "nodes ?b 0 = Some \<lparr>order_id = 1, price = 100, qty = 5\<rparr>"
    by (simp add: book_eval)
  have sz: "ev_size ?e = 2" by (simp add: mk_event_def)
  from cancel_semantics [OF inv act sd]
  have "apply_event ?e ?b = ?b\<lparr>nodes := (nodes ?b)(0 \<mapsto> \<lparr>order_id = 1, price = 100, qty = 3\<rparr>)\<rparr>"
    unfolding idx option.case sz using nd by auto
  with inv act show ?thesis by (simp add: mk_event_def)
qed

theorem modify_semantics_witness:
  "book_inv (run_events [mk_event CHR ''A'' CHR ''A'' 200 4 10, mk_event CHR ''A'' CHR ''A'' 200 6 11]
       (new_book [])) \<and>
   action (mk_event CHR ''M'' CHR ''A'' 200 7 10) = CHR ''M'' \<and>
   side (mk_event CHR ''M'' CHR ''A'' 200 7 10) = CHR ''A'' \<and>
   index (run_events [mk_event CHR ''A'' CHR ''A'' 200 4 10, mk_event CHR ''A'' CHR ''A'' 200 6 11]
       (new_book [])) 10 = Some \<lparr>is_buy = False, ref_price = 200, it = 0\<rparr> \<and>
   asks (apply_event (mk_event CHR ''M'' CHR ''A'' 200 7 10)
     (run_events [mk_event CHR ''A'' CHR ''A'' 200 4 10, mk_event CHR ''A'' CHR ''A'' 200 6 11]
        (new_book []))) 200 = Some [1, 2] \<and>
   nodes (apply_event (mk_event CHR ''M'' CHR ''A'' 200 7 10)
     (run_events [mk_event CHR ''A'' CHR ''A'' 200 4 10, mk_event CHR ''A'' CHR ''A'' 200 6 11]
        (new_book []))) 2 = Some \<lparr>order_id = 10, price = 200, qty = 7\<rparr>"
proof -
  let ?b = "run_events [mk_event CHR ''A'' CHR ''A'' 200 4 10, mk_event CHR ''A'' CHR ''A'' 200 6 11]
              (new_book [])"
  let ?e = "mk_event CHR ''M'' CHR ''A'' 200 7 10"
  let ?r = "\<lparr>is_buy = False, ref_price = 200, it = 0\<rparr>"
  have inv: "book_inv ?b" by (rule inv_run_events [OF inv_new_book])
  have act: "action ?e = CHR ''M''" by (simp add: mk_event_def)
  have sd: "side ?e = CHR ''B'' \<or> side ?e = CHR ''A''" by (simp add: mk_event_def)
  have idx: "index ?b (ev_order_id ?e) = Some ?r" by (simp add: book_eval)
  have match: "is_buy ?r = (side ?e = CHR ''B'')" by (simp add: mk_event_def)
  have nd: "nodes ?b 0 = Some \<lparr>order_id = 10, price = 200, qty = 4\<rparr>"
    by (simp add: book_eval)
  have lv: "levels False ?b 200 = Some [0, 1]" by (simp add: book_eval)
  have nx: "next_node ?b = 2" by (simp add: book_eval)
  have ev: "ev_size ?e = 7" "ev_price ?e = 200" "ev_order_id ?e = 10" by (simp_all add: mk_event_def)
  from modify_semantics [OF inv act sd idx match]
  have "levels False (apply_event ?e ?b) = (levels False ?b)(200 \<mapsto> [1, 2]) \<and>
        nodes (apply_event ?e ?b) = (nodes ?b)(0 := None, 2 \<mapsto> \<lparr>order_id = 10, price = 200, qty = 7\<rparr>)"
    using nd lv nx ev by auto
  then have "asks (apply_event ?e ?b) 200 = Some [1, 2]"
    "nodes (apply_event ?e ?b) 2 = Some \<lparr>order_id = 10, price = 200, qty = 7\<rparr>"
    by (simp_all add: levels_def)
  with inv idx show ?thesis by (simp add: mk_event_def)
qed

text \<open>
  C9. A modify event with size 0 at the order's own price, on a well-formed book: the
  order stays indexed on the same side at the same price, its node is in the level at
  that price, the node's quantity is 0 and the level has as many nodes as before (so the
  order count \<open>ct\<close> of the level is unchanged and the level is kept); when the resting
  quantity was not negative the book changes in that quantity only. A cancel event that
  brings the quantity to zero removes the node and the index entry instead.
\<close>

theorem modify_to_zero_keeps_order:
  assumes inv: "book_inv b" and act: "action e = CHR ''M''"
    and sd: "side e = CHR ''B'' \<or> side e = CHR ''A''"
    and r: "index b (ev_order_id e) = Some r"
    and match: "is_buy r = (side e = CHR ''B'')"
    and px: "ev_price e = ref_price r" and sz: "ev_size e = 0"
    and lvl: "levels (is_buy r) b (ref_price r) = Some lvl"
    and ord: "nodes b (it r) = Some ord"
    and cact: "action c = CHR ''C''" and csd: "side c = CHR ''B'' \<or> side c = CHR ''A''"
    and cid: "ev_order_id c = ev_order_id e" and csz: "sint (qty ord) \<le> sint (ev_size c)"
  shows "(\<exists>r' lvl'.
            index (apply_event e b) (ev_order_id e) = Some r' \<and>
            is_buy r' = is_buy r \<and> ref_price r' = ref_price r \<and>
            levels (is_buy r) (apply_event e b) (ref_price r) = Some lvl' \<and>
            it r' \<in> set lvl' \<and> level_ct lvl' = level_ct lvl \<and>
            nodes (apply_event e b) (it r') =
              Some \<lparr>order_id = ev_order_id e, price = ref_price r, qty = 0\<rparr>) \<and>
         (if 0 \<le> sint (qty ord)
          then apply_event e b = b\<lparr>nodes := (nodes b)(it r \<mapsto> ord\<lparr>qty := 0\<rparr>)\<rparr>
          else True) \<and>
         index (apply_event c b) (ev_order_id e) = None \<and>
         nodes (apply_event c b) (it r) = None \<and>
         levels (is_buy r) (apply_event c b) (ref_price r) =
           (if remove1 (it r) lvl = [] then None else Some (remove1 (it r) lvl))"
proof -
  from inv_index_level [OF inv r] lvl have mem: "it r \<in> set lvl" by auto
  from inv_index_node [OF inv r] ord have
    od: "order_id ord = ev_order_id e" "price ord = ref_price r" by auto
  have m: "is_buy_side (side e) = is_buy r" using match by (simp add: is_buy_side_def)
  have ap: "apply_event e b = book_modify e b" using act sd by (rule apply_modify)
  have part1: "\<exists>r' lvl'.
            index (apply_event e b) (ev_order_id e) = Some r' \<and>
            is_buy r' = is_buy r \<and> ref_price r' = ref_price r \<and>
            levels (is_buy r) (apply_event e b) (ref_price r) = Some lvl' \<and>
            it r' \<in> set lvl' \<and> level_ct lvl' = level_ct lvl \<and>
            nodes (apply_event e b) (it r') =
              Some \<lparr>order_id = ev_order_id e, price = ref_price r, qty = 0\<rparr>"
  proof (cases "qty ord <s ev_size e")
    case True
    have eq: "apply_event e b = insert_order (is_buy r) (ref_price r) (ev_order_id e) (ev_size e)
                 (remove_order (ev_order_id e) r lvl b)"
      using book_modify_grow [OF r m lvl ord px True] ap by simp
    have ct: "level_ct (remove1 (it r) lvl @ [next_node b]) = level_ct lvl"
    proof -
      from mem have "0 < length lvl" by (cases lvl) auto
      with mem have "length (remove1 (it r) lvl @ [next_node b]) = length lvl"
        by (simp add: length_remove1)
      then show ?thesis by (simp only: level_ct_length)
    qed
    have lv: "levels (is_buy r) (apply_event e b) (ref_price r) =
                Some (remove1 (it r) lvl @ [next_node b])"
      unfolding eq by (simp add: levels_insert_order levels_remove_order remove_order_sel)
    have ix: "index (apply_event e b) (ev_order_id e) =
                Some \<lparr>is_buy = is_buy r, ref_price = ref_price r, it = next_node b\<rparr>"
      unfolding eq by (simp add: insert_order_sel remove_order_sel)
    have nd: "nodes (apply_event e b) (next_node b) =
                Some \<lparr>order_id = ev_order_id e, price = ref_price r, qty = 0\<rparr>"
      unfolding eq using sz by (simp add: insert_order_sel remove_order_sel)
    show ?thesis
      using lv ix nd ct by simp
  next
    case False
    have eq: "apply_event e b = b\<lparr>nodes := (nodes b)(it r \<mapsto> ord\<lparr>qty := ev_size e\<rparr>)\<rparr>"
      using book_modify_inplace [OF r m ord px False] ap by simp
    have "ord\<lparr>qty := 0\<rparr> = \<lparr>order_id = ev_order_id e, price = ref_price r, qty = 0\<rparr>"
      using od by (cases ord) simp
    then show ?thesis
      unfolding eq using r lvl mem sz by simp
  qed
  have part2: "apply_event e b = b\<lparr>nodes := (nodes b)(it r \<mapsto> ord\<lparr>qty := 0\<rparr>)\<rparr>"
    if "0 \<le> sint (qty ord)"
  proof -
    from that sz have "\<not> qty ord <s ev_size e" by (simp add: word_sless_alt)
    from book_modify_inplace [OF r m ord px this] ap sz show ?thesis by simp
  qed
  have rc: "index b (ev_order_id c) = Some r" using r cid by simp
  have "apply_event c b = remove_order (ev_order_id c) r lvl b"
    using book_cancel_full [OF rc lvl ord] csz apply_cancel [OF cact csd]
    by (simp add: word_sle_eq)
  then have part3: "index (apply_event c b) (ev_order_id e) = None \<and>
         nodes (apply_event c b) (it r) = None \<and>
         levels (is_buy r) (apply_event c b) (ref_price r) =
           (if remove1 (it r) lvl = [] then None else Some (remove1 (it r) lvl))"
    using cid by (simp add: remove_order_sel)
  from part1 part2 part3 show ?thesis by simp
qed


theorem modify_to_zero_keeps_order_witness:
  "book_inv (run_events [mk_event CHR ''A'' CHR ''B'' 100 5 1] (new_book [])) \<and>
   index (run_events [mk_event CHR ''A'' CHR ''B'' 100 5 1] (new_book [])) 1 =
     Some \<lparr>is_buy = True, ref_price = 100, it = 0\<rparr> \<and>
   bids (run_events [mk_event CHR ''A'' CHR ''B'' 100 5 1] (new_book [])) 100 = Some [0] \<and>
   nodes (run_events [mk_event CHR ''A'' CHR ''B'' 100 5 1] (new_book [])) 0 =
     Some \<lparr>order_id = 1, price = 100, qty = 5\<rparr> \<and>
   apply_event (mk_event CHR ''M'' CHR ''B'' 100 0 1)
       (run_events [mk_event CHR ''A'' CHR ''B'' 100 5 1] (new_book [])) =
     (run_events [mk_event CHR ''A'' CHR ''B'' 100 5 1] (new_book []))
       \<lparr>nodes := (nodes (run_events [mk_event CHR ''A'' CHR ''B'' 100 5 1] (new_book [])))
                    (0 \<mapsto> \<lparr>order_id = 1, price = 100, qty = 0\<rparr>)\<rparr> \<and>
   index (apply_event (mk_event CHR ''C'' CHR ''B'' 100 5 1)
       (run_events [mk_event CHR ''A'' CHR ''B'' 100 5 1] (new_book []))) 1 = None \<and>
   bids (apply_event (mk_event CHR ''C'' CHR ''B'' 100 5 1)
       (run_events [mk_event CHR ''A'' CHR ''B'' 100 5 1] (new_book []))) 100 = None"
proof -
  let ?b = "run_events [mk_event CHR ''A'' CHR ''B'' 100 5 1] (new_book [])"
  let ?e = "mk_event CHR ''M'' CHR ''B'' 100 0 1"
  let ?c = "mk_event CHR ''C'' CHR ''B'' 100 5 1"
  let ?r = "\<lparr>is_buy = True, ref_price = 100, it = 0\<rparr>"
  let ?ord = "\<lparr>order_id = 1, price = 100, qty = 5\<rparr>"
  have inv: "book_inv ?b" by (rule inv_run_events [OF inv_new_book])
  have act: "action ?e = CHR ''M''" by (simp add: mk_event_def)
  have sd: "side ?e = CHR ''B'' \<or> side ?e = CHR ''A''" by (simp add: mk_event_def)
  have idx: "index ?b (ev_order_id ?e) = Some ?r" by (simp add: book_eval)
  have match: "is_buy ?r = (side ?e = CHR ''B'')" by (simp add: mk_event_def)
  have px: "ev_price ?e = ref_price ?r" by (simp add: mk_event_def)
  have sz: "ev_size ?e = 0" by (simp add: mk_event_def)
  have lv: "levels (is_buy ?r) ?b (ref_price ?r) = Some [0]" by (simp add: book_eval)
  have nd: "nodes ?b (it ?r) = Some ?ord" by (simp add: book_eval)
  have cact: "action ?c = CHR ''C''" by (simp add: mk_event_def)
  have csd: "side ?c = CHR ''B'' \<or> side ?c = CHR ''A''" by (simp add: mk_event_def)
  have cid: "ev_order_id ?c = ev_order_id ?e" by (simp add: mk_event_def)
  have csz: "sint (qty ?ord) \<le> sint (ev_size ?c)" by (simp add: mk_event_def)
  from modify_to_zero_keeps_order [OF inv act sd idx match px sz lv nd cact csd cid csz]
  have "apply_event ?e ?b = ?b\<lparr>nodes := (nodes ?b)(0 \<mapsto> \<lparr>order_id = 1, price = 100, qty = 0\<rparr>)\<rparr>"
    and "index (apply_event ?c ?b) 1 = None"
    and "levels True (apply_event ?c ?b) 100 = None"
    by (simp_all add: mk_event_def)
  moreover have "index ?b 1 = Some ?r" using idx by (simp add: mk_event_def)
  moreover have "bids ?b 100 = Some [0]" using lv by (simp add: levels_def)
  moreover have "nodes ?b 0 = Some ?ord" using nd by simp
  ultimately show ?thesis using inv by (simp add: levels_def)
qed


section \<open>The persistent-writer queue: backpressure\<close>

lemma pop_while_full_eq:
  "0 < C \<Longrightarrow> pop_while_full C q = Some (drop (length q - (C - 1)) q)"
proof (induction q)
  case Nil
  then show ?case by simp
next
  case (Cons x q)
  show ?case
  proof (cases "C \<le> Suc (length q)")
    case True
    with Cons.prems have "Suc (length q) - (C - 1) = Suc (length q - (C - 1))" by arith
    with True Cons show ?thesis by simp
  next
    case False
    then have "Suc (length q) - (C - 1) = 0" by arith
    with False show ?thesis by simp
  qed
qed

lemma enqueue_eq:
  assumes "0 < C"
  shows "enqueue_snapshot_write True C t sy tb q =
           Some (drop (Suc (length q) - C) (q @ [\<lparr>ts_us = t, sw_symbol = sy, tob = tb\<rparr>]))"
proof -
  from assms have "Suc (length q) - C = length q - (C - 1)" by arith
  then show ?thesis
    using assms by (simp add: enqueue_snapshot_write_def pop_while_full_eq)
qed

lemma last_items_append:
  "drop (length (drop (length l - C) l) + length xs - C) (drop (length l - C) l @ xs) =
   drop (length l + length xs - C) (l @ xs)"
proof (cases "length l \<le> C")
  case True
  then have "length l - C = 0" by simp
  then show ?thesis by simp
next
  case False
  define k where "k = length l - C"
  have lk: "length l = k + C" using False by (simp add: k_def)
  have a: "length (drop k l) + length xs - C = length xs" using lk by simp
  have b: "length l + length xs - C = length xs + k" using lk by simp
  have c: "drop k l @ xs = drop k (l @ xs)" using lk by simp
  show ?thesis unfolding k_def [symmetric] a b c by (simp only: drop_drop)
qed

lemma enqueue_all_eq:
  assumes "0 < C"
  shows "xs \<noteq> [] \<Longrightarrow>
         enqueue_all True C xs q = Some (drop (length q + length xs - C) (q @ xs))"
proof (induction xs arbitrary: q)
  case Nil
  then show ?case by simp
next
  case (Cons x xs)
  let ?L = "q @ [x]"
  have step: "enqueue_snapshot_write True C (ts_us x) (sw_symbol x) (tob x) q =
                Some (drop (length ?L - C) ?L)"
  proof -
    have eq: "\<lparr>ts_us = ts_us x, sw_symbol = sw_symbol x, tob = tob x\<rparr> = x"
      by (cases x) simp
    from enqueue_eq [OF assms, of "ts_us x" "sw_symbol x" "tob x" q]
    show ?thesis unfolding eq by simp
  qed
  show ?case
  proof (cases "xs = []")
    case True
    with step show ?thesis by simp
  next
    case False
    have "enqueue_all True C (x # xs) q = enqueue_all True C xs (drop (length ?L - C) ?L)"
      using step by simp
    also have "\<dots> = Some (drop (length (drop (length ?L - C) ?L) + length xs - C)
                          (drop (length ?L - C) ?L @ xs))"
      by (rule Cons.IH [OF False])
    also have "\<dots> = Some (drop (length ?L + length xs - C) (?L @ xs))"
      by (simp only: last_items_append)
    also have "\<dots> = Some (drop (length q + length (x # xs) - C) (q @ x # xs))"
      by simp
    finally show ?thesis .
  qed
qed

text \<open>
  C6. With the writer present and a capacity \<open>C > 0\<close>, a run of \<open>K > C\<close> enqueue
  operations with no dequeue in between, from any queue, returns and leaves exactly the
  last \<open>C\<close> items of the run, in arrival order. Every single enqueue returns a queue,
  and on a queue holding \<open>C\<close> items it drops the oldest item and appends the new one.
\<close>

theorem backpressure_keeps_most_recent:
  fixes items q0 :: "'tob SnapshotWrite list"
  assumes "0 < C" and "C < length items"
  shows "enqueue_all True C items q0 = Some (drop (length items - C) items) \<and>
         length (drop (length items - C) items) = C \<and>
         (\<forall>(q :: 'tob SnapshotWrite list) t sy tb.
            \<exists>q'. enqueue_snapshot_write True C t sy tb q = Some q') \<and>
         (\<forall>(q :: 'tob SnapshotWrite list) t sy tb. length q = C \<longrightarrow>
            enqueue_snapshot_write True C t sy tb q =
              Some (tl q @ [\<lparr>ts_us = t, sw_symbol = sy, tob = tb\<rparr>]))"
proof -
  from assms have ne: "items \<noteq> []" by auto
  have "length q0 + length items - C = length q0 + (length items - C)"
    using assms by arith
  then have a: "enqueue_all True C items q0 = Some (drop (length items - C) items)"
    using enqueue_all_eq [OF assms(1) ne, of q0] by simp
  have b: "length (drop (length items - C) items) = C" using assms by simp
  have c: "\<forall>(q :: 'tob SnapshotWrite list) t sy tb.
             \<exists>q'. enqueue_snapshot_write True C t sy tb q = Some q'"
    by (simp add: enqueue_eq [OF assms(1)])
  have d: "\<forall>(q :: 'tob SnapshotWrite list) t sy tb. length q = C \<longrightarrow>
            enqueue_snapshot_write True C t sy tb q =
              Some (tl q @ [\<lparr>ts_us = t, sw_symbol = sy, tob = tb\<rparr>])"
  proof (intro allI impI)
    fix q :: "'tob SnapshotWrite list" and t sy and tb :: 'tob
    assume "length q = C"
    with assms(1) obtain y ys where "q = y # ys" by (cases q) auto
    with \<open>length q = C\<close> show "enqueue_snapshot_write True C t sy tb q =
              Some (tl q @ [\<lparr>ts_us = t, sw_symbol = sy, tob = tb\<rparr>])"
      by (simp add: enqueue_eq [OF assms(1)])
  qed
  from a b c d show ?thesis by (intro conjI)
qed

theorem backpressure_keeps_most_recent_witness:
  "(0::nat) < 2 \<and>
   2 < length [\<lparr>ts_us = 1, sw_symbol = ''S'', tob = ()\<rparr>, \<lparr>ts_us = 2, sw_symbol = ''S'', tob = ()\<rparr>,
               \<lparr>ts_us = 3, sw_symbol = ''S'', tob = ()\<rparr>] \<and>
   enqueue_all True 2
     [\<lparr>ts_us = 1, sw_symbol = ''S'', tob = ()\<rparr>, \<lparr>ts_us = 2, sw_symbol = ''S'', tob = ()\<rparr>,
      \<lparr>ts_us = 3, sw_symbol = ''S'', tob = ()\<rparr>] [] =
     Some [\<lparr>ts_us = 2, sw_symbol = ''S'', tob = ()\<rparr>, \<lparr>ts_us = 3, sw_symbol = ''S'', tob = ()\<rparr>]"
proof -
  let ?xs = "[\<lparr>ts_us = 1, sw_symbol = ''S'', tob = ()\<rparr>, \<lparr>ts_us = 2, sw_symbol = ''S'', tob = ()\<rparr>,
              \<lparr>ts_us = 3, sw_symbol = ''S'', tob = ()\<rparr>]"
  have h1: "(0::nat) < 2" by simp
  have h2: "2 < length ?xs" by simp
  have e: "enqueue_all True 2 ?xs [] = Some (drop (length ?xs - 2) ?xs)"
    by (rule conjunct1 [OF backpressure_keeps_most_recent [OF h1 h2, of "[]"]])
  have d: "drop (length ?xs - 2) ?xs =
             [\<lparr>ts_us = 2, sw_symbol = ''S'', tob = ()\<rparr>, \<lparr>ts_us = 3, sw_symbol = ''S'', tob = ()\<rparr>]"
    by simp
  show ?thesis unfolding e d by simp
qed

section \<open>The snapshot store: loading\<close>

lemma global_after_publishes:
  "g_latest_global st = Some cur \<Longrightarrow>
   g_latest_global (foldl do_publish st calls) = Some (last_global cur calls)"
proof (induction calls arbitrary: st cur)
  case Nil
  then show ?case by simp
next
  case (Cons a calls)
  then show ?case
    by (cases a) (simp_all add: publish_snapshot_global_def publish_snapshot_def)
qed

lemma by_symbol_after_publishes:
  "g_latest_by_symbol (foldl do_publish st calls) sy =
     (case last_for_symbol sy calls of
        Some s \<Rightarrow> Some (Some s)
      | None \<Rightarrow> g_latest_by_symbol st sy)"
proof (induction calls arbitrary: st)
  case Nil
  then show ?case by simp
next
  case (Cons a calls)
  then show ?case
    by (cases a)
      (simp_all add: publish_snapshot_global_def publish_snapshot_def split: option.splits)
qed

text \<open>
  C10. After any sequence of publish calls from the initial store, \<open>load_snapshot\<close> for a
  symbol returns the snapshot published last for that symbol when there is one, and the
  current global snapshot when there is none; the global snapshot is the one published
  last to the global slot, and the string \<open>{}\<close> before any publish; the handle returned is
  never null.
\<close>

theorem load_snapshot_total:
  "load_snapshot sy (run_publishes calls) =
     (case last_for_symbol sy calls of
        Some s \<Rightarrow> Some s
      | None \<Rightarrow> load_snapshot_global (run_publishes calls)) \<and>
   load_snapshot_global (run_publishes calls) = Some (last_global ''{}'' calls) \<and>
   load_snapshot_global (run_publishes []) = Some ''{}'' \<and>
   load_snapshot sy (run_publishes calls) \<noteq> None"
proof -
  have g: "g_latest_global (run_publishes calls) = Some (last_global ''{}'' calls)"
    unfolding run_publishes_def
    by (rule global_after_publishes) (simp add: initial_store_def)
  have s: "g_latest_by_symbol (run_publishes calls) sy =
             (case last_for_symbol sy calls of Some s \<Rightarrow> Some (Some s) | None \<Rightarrow> None)"
    unfolding run_publishes_def
    by (simp add: by_symbol_after_publishes initial_store_def split: option.splits)
  have e: "load_snapshot_global (run_publishes []) = Some ''{}''"
    by (simp add: run_publishes_def load_snapshot_global_def initial_store_def)
  from g s e show ?thesis
    by (simp add: load_snapshot_def load_snapshot_global_def split: option.splits)
qed

section \<open>The engine driver: the first event that carries a symbol\<close>

lemma bk_symbol_apply_event: "bk_symbol (apply_event e b) = bk_symbol b"
  by (simp add: apply_event_def book_clear_def book_add_def book_cancel_def book_modify_def
        push_back_level_def erase_cleanup_def set_levels_def Let_def
      split: option.splits prod.splits)

lemma index_apply_new_book:
  "index (apply_event e (new_book nm)) k = Some r \<Longrightarrow> k = ev_order_id e"
  by (simp add: apply_event_def book_clear_def book_add_def book_cancel_def book_modify_def
        push_back_level_def erase_cleanup_def set_levels_def levels_def emplace_def new_book_def
        Let_def
      split: option.splits prod.splits if_splits)

text \<open>
  C8. When \<open>handle_line\<close> parses a line into an event with a non-empty symbol while no
  symbol has been set, the book after the call is that event applied to a newly
  constructed book carrying the event's symbol: it does not depend on the book before the
  call, and the only order it can hold is the one of this event.
\<close>

theorem first_symbol_replaces_book:
  assumes "strip_cr line \<noteq> []" and "\<not> is_header_line (strip_cr line)"
    and "parse (strip_cr line) = Some e"
    and "\<not> has_symbol st" and "symbol e \<noteq> []"
  shows "book (fst (handle_line parse ts line st)) = apply_event e (new_book (symbol e)) \<and>
         bk_symbol (book (fst (handle_line parse ts line st))) = symbol e \<and>
         book_symbol (fst (handle_line parse ts line st)) = symbol e \<and>
         has_symbol (fst (handle_line parse ts line st)) \<and>
         dom (index (book (fst (handle_line parse ts line st)))) \<subseteq> {ev_order_id e} \<and>
         snd (handle_line parse ts line st)"
proof -
  have b: "book (fst (handle_line parse ts line st)) = apply_event e (new_book (symbol e))"
    and s: "book_symbol (fst (handle_line parse ts line st)) = symbol e"
    and h: "has_symbol (fst (handle_line parse ts line st))"
    and t: "snd (handle_line parse ts line st)"
    using assms by (simp_all add: handle_line_def Let_def)
  have "bk_symbol (apply_event e (new_book (symbol e))) = symbol e"
    by (simp add: bk_symbol_apply_event new_book_def)
  moreover have "dom (index (apply_event e (new_book (symbol e)))) \<subseteq> {ev_order_id e}"
    using index_apply_new_book by fastforce
  ultimately show ?thesis using b s h t by simp
qed


theorem first_symbol_replaces_book_witness:
  "\<not> has_symbol \<lparr>book = run_events [mk_event CHR ''A'' CHR ''B'' 99 1 1] (new_book []),
       book_symbol = [], has_symbol = False, processed = 1, parsed_ok = 1, lines_total = 1,
       last_ts_us = 0\<rparr> \<and>
   index (book \<lparr>book = run_events [mk_event CHR ''A'' CHR ''B'' 99 1 1] (new_book []),
       book_symbol = [], has_symbol = False, processed = 1, parsed_ok = 1, lines_total = 1,
       last_ts_us = 0\<rparr>) 1 = Some \<lparr>is_buy = True, ref_price = 99, it = 0\<rparr> \<and>
   index (book (fst (handle_line
       (\<lambda>l. Some ((mk_event CHR ''A'' CHR ''B'' 100 5 7)\<lparr>symbol := ''CLX5''\<rparr>)) (\<lambda>t. 0) ''x''
       \<lparr>book = run_events [mk_event CHR ''A'' CHR ''B'' 99 1 1] (new_book []),
        book_symbol = [], has_symbol = False, processed = 1, parsed_ok = 1, lines_total = 1,
        last_ts_us = 0\<rparr>))) 1 = None \<and>
   bk_symbol (book (fst (handle_line
       (\<lambda>l. Some ((mk_event CHR ''A'' CHR ''B'' 100 5 7)\<lparr>symbol := ''CLX5''\<rparr>)) (\<lambda>t. 0) ''x''
       \<lparr>book = run_events [mk_event CHR ''A'' CHR ''B'' 99 1 1] (new_book []),
        book_symbol = [], has_symbol = False, processed = 1, parsed_ok = 1, lines_total = 1,
        last_ts_us = 0\<rparr>))) = ''CLX5''"
proof -
  let ?st = "\<lparr>book = run_events [mk_event CHR ''A'' CHR ''B'' 99 1 1] (new_book []),
       book_symbol = [], has_symbol = False, processed = 1, parsed_ok = 1, lines_total = 1,
       last_ts_us = 0\<rparr>"
  let ?e = "(mk_event CHR ''A'' CHR ''B'' 100 5 7)\<lparr>symbol := ''CLX5''\<rparr>"
  let ?parse = "\<lambda>l :: string. Some ?e"
  let ?ts = "\<lambda>t :: string. 0 :: int64"
  have h1: "strip_cr ''x'' \<noteq> []" by (simp add: strip_cr_def)
  have h2: "\<not> is_header_line (strip_cr ''x'')"
    by (simp add: strip_cr_def is_header_line_def starts_with_def)
  have h3: "?parse (strip_cr ''x'') = Some ?e" by simp
  have h4: "\<not> has_symbol ?st" by simp
  have h5: "symbol ?e \<noteq> []" by simp
  have old: "index (book ?st) 1 = Some \<lparr>is_buy = True, ref_price = 99, it = 0\<rparr>"
    by (simp add: book_eval)
  note th = first_symbol_replaces_book [OF h1 h2 h3 h4 h5, of ?ts]
  have "bk_symbol (book (fst (handle_line ?parse ?ts ''x'' ?st))) = symbol ?e"
    by (rule conjunct1 [OF conjunct2 [OF th]])
  then have sy: "bk_symbol (book (fst (handle_line ?parse ?ts ''x'' ?st))) = ''CLX5''"
    by (simp add: mk_event_def)
  have dm: "dom (index (book (fst (handle_line ?parse ?ts ''x'' ?st)))) \<subseteq> {ev_order_id ?e}"
    using th by blast
  have "ev_order_id ?e = 7" by (simp add: mk_event_def)
  with dm have "1 \<notin> dom (index (book (fst (handle_line ?parse ?ts ''x'' ?st))))" by auto
  then have "index (book (fst (handle_line ?parse ?ts ''x'' ?st))) 1 = None" by blast
  with sy old h4 show ?thesis by simp
qed


section \<open>The push server: bounds and acknowledgment\<close>

lemma parse_control_message_accepted:
  assumes ty: "parse_string_value_after_key msg ''type'' = Some ''subscribe'' \<or>
               parse_string_value_after_key msg ''type'' = Some ''update''"
  shows "parse_control_message msg st =
           (st\<lparr>ws_symbol := (case parse_string_value_after_key msg ''symbol'' of
                                None \<Rightarrow> ws_symbol st
                              | Some sy \<Rightarrow> if sy = [] then ws_symbol st else sy),
               depth := (case parse_int_value_after_key msg ''depth'' of
                           None \<Rightarrow> depth st
                         | Some d \<Rightarrow> if 0 < d \<and> d \<le> 200 then d else depth st),
               push_ms := (case parse_int_value_after_key msg ''push_ms'' of
                             None \<Rightarrow> push_ms st
                           | Some pm \<Rightarrow> max 10 (min 5000 pm))\<rparr>, True)"
  using ty
  by (auto simp: parse_control_message_def Let_def max_def min_def split: option.splits)

lemma parse_control_message_ignored:
  assumes "\<not> (parse_string_value_after_key msg ''type'' = Some ''subscribe'' \<or>
               parse_string_value_after_key msg ''type'' = Some ''update'')"
  shows "parse_control_message msg st = (st, False)"
  using assms by (auto simp: parse_control_message_def split: option.splits)

text \<open>
  C7. A session whose depth is within 1..200 and whose push interval is within 10..5000
  reads a frame. If the \<open>type\<close> field of the frame parses to \<open>subscribe\<close> or \<open>update\<close>,
  the session takes the symbol when one is given and not empty, the depth when one is
  given within 1..200, and the push interval, when one is given, brought into
  10..5000; depth and push interval are within their bounds afterwards, nothing else of
  the session changes, and exactly one frame is written: the acknowledgment with the
  symbol, depth and push interval after the update. For any other frame the session is
  unchanged and nothing is written.
\<close>

theorem control_message_ack:
  assumes d: "1 \<le> depth st \<and> depth st \<le> 200"
    and p: "10 \<le> push_ms st \<and> push_ms st \<le> 5000"
  shows "if parse_string_value_after_key msg ''type'' = Some ''subscribe'' \<or>
            parse_string_value_after_key msg ''type'' = Some ''update''
         then (\<exists>st'. on_read (Some msg) st =
                   (st', [''{'' @ quoted ''type'' @ '':'' @ quoted ''ack'' @ '','' @
                          quoted ''symbol'' @ '':'' @ quoted (ws_symbol st') @ '','' @
                          quoted ''depth'' @ '':'' @ to_string (depth st') @ '','' @
                          quoted ''push_ms'' @ '':'' @ to_string (push_ms st') @ ''}'']) \<and>
                 1 \<le> depth st' \<and> depth st' \<le> 200 \<and>
                 10 \<le> push_ms st' \<and> push_ms st' \<le> 5000 \<and>
                 ws_symbol st' =
                   (case parse_string_value_after_key msg ''symbol'' of
                      None \<Rightarrow> ws_symbol st
                    | Some sy \<Rightarrow> if sy = [] then ws_symbol st else sy) \<and>
                 depth st' =
                   (case parse_int_value_after_key msg ''depth'' of
                      None \<Rightarrow> depth st
                    | Some dv \<Rightarrow> if 0 < dv \<and> dv \<le> 200 then dv else depth st) \<and>
                 push_ms st' =
                   (case parse_int_value_after_key msg ''push_ms'' of
                      None \<Rightarrow> push_ms st
                    | Some pm \<Rightarrow> max 10 (min 5000 pm)) \<and>
                 last_sent st' = last_sent st \<and>
                 write_in_flight st' = write_in_flight st)
         else on_read (Some msg) st = (st, [])"
proof (cases "parse_string_value_after_key msg ''type'' = Some ''subscribe'' \<or>
              parse_string_value_after_key msg ''type'' = Some ''update''")
  case True
  have db: "1 \<le> (case parse_int_value_after_key msg ''depth'' of
                      None \<Rightarrow> depth st
                    | Some dv \<Rightarrow> if 0 < dv \<and> dv \<le> 200 then dv else depth st) \<and>
            (case parse_int_value_after_key msg ''depth'' of
                      None \<Rightarrow> depth st
                    | Some dv \<Rightarrow> if 0 < dv \<and> dv \<le> 200 then dv else depth st) \<le> 200"
    using d by (auto split: option.splits)
  have pb: "10 \<le> (case parse_int_value_after_key msg ''push_ms'' of
                      None \<Rightarrow> push_ms st
                    | Some pm \<Rightarrow> max 10 (min 5000 pm)) \<and>
            (case parse_int_value_after_key msg ''push_ms'' of
                      None \<Rightarrow> push_ms st
                    | Some pm \<Rightarrow> max 10 (min 5000 pm)) \<le> 5000"
    using p by (auto split: option.splits)
  show ?thesis
    using True db pb
    by (simp add: on_read_def parse_control_message_accepted [OF True] make_ack_json_def)
next
  case False
  then show ?thesis
    by (simp add: on_read_def parse_control_message_ignored [OF False])
qed

theorem control_message_ack_witness:
  "1 \<le> depth \<lparr>ws_symbol = ''CLX5'', depth = 10, push_ms = 50, last_sent = None,
               write_in_flight = False\<rparr> \<and>
   depth \<lparr>ws_symbol = ''CLX5'', depth = 10, push_ms = 50, last_sent = None,
          write_in_flight = False\<rparr> \<le> 200 \<and>
   10 \<le> push_ms \<lparr>ws_symbol = ''CLX5'', depth = 10, push_ms = 50, last_sent = None,
                  write_in_flight = False\<rparr> \<and>
   push_ms \<lparr>ws_symbol = ''CLX5'', depth = 10, push_ms = 50, last_sent = None,
            write_in_flight = False\<rparr> \<le> 5000 \<and>
   parse_string_value_after_key
     (''{'' @ quoted ''type'' @ '':'' @ quoted ''update'' @ '','' @ quoted ''depth'' @ '':20}'')
     ''type'' = Some ''update'' \<and>
   on_read
     (Some (''{'' @ quoted ''type'' @ '':'' @ quoted ''update'' @ '','' @ quoted ''depth'' @
            '':20}''))
     \<lparr>ws_symbol = ''CLX5'', depth = 10, push_ms = 50, last_sent = None,
      write_in_flight = False\<rparr> =
     (\<lparr>ws_symbol = ''CLX5'', depth = 20, push_ms = 50, last_sent = None,
       write_in_flight = False\<rparr>,
      [''{'' @ quoted ''type'' @ '':'' @ quoted ''ack'' @ '','' @ quoted ''symbol'' @ '':'' @
       quoted ''CLX5'' @ '','' @ quoted ''depth'' @ '':20,'' @ quoted ''push_ms'' @ '':50}''])"
proof -
  let ?st = "\<lparr>ws_symbol = ''CLX5'', depth = 10, push_ms = 50, last_sent = None,
              write_in_flight = False\<rparr>"
  let ?msg = "''{'' @ quoted ''type'' @ '':'' @ quoted ''update'' @ '','' @ quoted ''depth'' @
              '':20}''"
  have d: "1 \<le> depth ?st \<and> depth ?st \<le> 200" by simp
  have p: "10 \<le> push_ms ?st \<and> push_ms ?st \<le> 5000" by simp
  have ty: "parse_string_value_after_key ?msg ''type'' = Some ''update''" by code_simp
  have sy: "parse_string_value_after_key ?msg ''symbol'' = None" by code_simp
  have dv: "parse_int_value_after_key ?msg ''depth'' = Some 20" by code_simp
  have pm: "parse_int_value_after_key ?msg ''push_ms'' = None" by code_simp
  have t20: "to_string 20 = ''20''" by code_simp
  have t50: "to_string 50 = ''50''" by code_simp
  from control_message_ack [OF d p, of ?msg] ty
  obtain st' where
    r: "on_read (Some ?msg) ?st =
          (st', [''{'' @ quoted ''type'' @ '':'' @ quoted ''ack'' @ '','' @
                 quoted ''symbol'' @ '':'' @ quoted (ws_symbol st') @ '','' @
                 quoted ''depth'' @ '':'' @ to_string (depth st') @ '','' @
                 quoted ''push_ms'' @ '':'' @ to_string (push_ms st') @ ''}''])"
    and f: "ws_symbol st' = ''CLX5''" "depth st' = 20" "push_ms st' = 50"
       "last_sent st' = None" "write_in_flight st' = False"
    unfolding sy dv pm by auto
  from f have st': "st' = \<lparr>ws_symbol = ''CLX5'', depth = 20, push_ms = 50, last_sent = None,
                            write_in_flight = False\<rparr>"
    by (cases st') simp
  have "on_read (Some ?msg) ?st =
     (\<lparr>ws_symbol = ''CLX5'', depth = 20, push_ms = 50, last_sent = None,
       write_in_flight = False\<rparr>,
      [''{'' @ quoted ''type'' @ '':'' @ quoted ''ack'' @ '','' @ quoted ''symbol'' @ '':'' @
       quoted ''CLX5'' @ '','' @ quoted ''depth'' @ '':20,'' @ quoted ''push_ms'' @ '':50}''])"
    unfolding r st' by (simp add: t20 t50)
  with d p ty show ?thesis by blast
qed


section \<open>The latency histogram: percentiles\<close>

lemma nat_bit_lower: "bit (m :: nat) k \<Longrightarrow> 2 ^ k \<le> m"
proof -
  assume "bit m k"
  then have "odd (m div 2 ^ k)" by (simp add: bit_iff_odd)
  then have "0 < m div 2 ^ k" by (cases "m div 2 ^ k") auto
  then show ?thesis by (simp add: div_greater_zero_iff)
qed

lemma nat_bits_upper:
  assumes "\<And>i. j \<le> i \<Longrightarrow> \<not> bit (m :: nat) i"
  shows "m < 2 ^ j"
proof -
  have "bit (take_bit j m) i = bit m i" for i
    using assms [of i] by (cases "j \<le> i") (auto simp: bit_take_bit_iff)
  then have "take_bit j m = m" by (rule bit_eqI)
  then show ?thesis by (metis take_bit_nat_less_exp)
qed

lemma clzll_bounds:
  assumes "w \<noteq> 0"
  shows "clzll w < 64 \<and> bit w (63 - clzll w) \<and> (\<forall>i. 63 - clzll w < i \<longrightarrow> \<not> bit w i)"
proof -
  define xs :: "nat list" where "xs = rev [0..<64]"
  define P where "P = (\<lambda>i. \<not> bit w i)"
  define k where "k = length (takeWhile P xs)"
  have cl: "clzll w = k" by (simp only: clzll_def k_def P_def xs_def)
  have len: "length xs = 64" by (simp only: xs_def length_rev length_upt)
  have nth: "xs ! j = 63 - j" if "j < 64" for j
    using that unfolding xs_def by (subst rev_nth) simp_all
  have mem: "i \<in> set xs" if "i < 64" for i
    using that unfolding xs_def by (simp only: set_rev set_upt atLeastLessThan_iff) simp
  have lt: "k < 64"
  proof (rule ccontr)
    assume "\<not> k < 64"
    with length_takeWhile_le [of P xs] len have "length (takeWhile P xs) = length xs"
      by (simp add: k_def)
    then have "dropWhile P xs = []"
      using takeWhile_dropWhile_id [of P xs]
      by (metis append_eq_conv_conj length_0_conv length_drop diff_self_eq_0)
    then have "\<forall>i\<in>set xs. P i" by (simp add: dropWhile_eq_Nil_conv)
    then have "\<not> bit w i" for i
      using bit_imp_le_length [of w i] mem [of i] by (cases "i < 64") (auto simp: P_def)
    then have "w = 0" by (intro bit_eqI) simp
    with assms show False by simp
  qed
  have top: "bit w (63 - k)"
    using nth_length_takeWhile [of P xs] lt len nth [of k] by (simp add: k_def P_def)
  have above: "\<not> bit w i" if "63 - k < i" for i
  proof (cases "i < 64")
    case True
    from that True have j: "63 - i < length (takeWhile P xs)" unfolding k_def by arith
    then have "takeWhile P xs ! (63 - i) \<in> set (takeWhile P xs)" by (rule nth_mem)
    then have "P (takeWhile P xs ! (63 - i))" by (blast dest: set_takeWhileD)
    moreover have "takeWhile P xs ! (63 - i) = i"
      using takeWhile_nth [OF j] nth [of "63 - i"] True by simp
    ultimately show ?thesis by (simp add: P_def)
  next
    case False
    then show ?thesis using bit_imp_le_length [of w i] by auto
  qed
  from lt top above show ?thesis unfolding cl by blast
qed

text \<open>Bucket \<open>b\<close> covers \<open>[2^b, 2^(b+1))\<close>: a sample other than 0 lies within the bounds
  of the bucket \<open>add\<close> counts it in.\<close>

lemma bucket_bounds:
  assumes "ns \<noteq> 0"
  shows "2 ^ bucket ns \<le> unat ns \<and> unat ns < 2 ^ (bucket ns + 1)"
proof -
  from clzll_bounds [OF assms] have lt: "clzll ns < 64"
    and top: "bit ns (63 - clzll ns)"
    and above: "\<And>i. 63 - clzll ns < i \<Longrightarrow> \<not> bit ns i" by blast+
  have b: "bucket ns = 63 - clzll ns"
    using assms lt by (auto simp: bucket_def Let_def)
  have "bit (unat ns) (63 - clzll ns)" using top by (simp add: bit_unsigned_iff)
  then have lo: "2 ^ (63 - clzll ns) \<le> unat ns" by (rule nat_bit_lower)
  have "\<not> bit (unat ns) i" if "63 - clzll ns + 1 \<le> i" for i
    using above [of i] that by (simp add: bit_unsigned_iff)
  then have hi: "unat ns < 2 ^ (63 - clzll ns + 1)" by (rule nat_bits_upper)
  from lo hi b show ?thesis by simp
qed



lemma take_sum_step:
  assumes "b < length cs"
  shows "sum_list (map unat (take (Suc b) cs)) = sum_list (map unat (take b cs)) + unat (cs ! b)"
  using assms by (simp add: take_Suc_conv_app_nth)

lemma take_sum_le:
  "sum_list (map unat (take b cs)) \<le> sum_list (map unat (cs :: 64 word list))"
proof -
  have "sum_list (map unat cs) = sum_list (map unat (take b cs)) + sum_list (map unat (drop b cs))"
    by (metis append_take_drop_id map_append sum_list_append)
  then show ?thesis by simp
qed

lemma percentile_loop_correct:
  assumes len: "length cs = 64" and nov: "sum_list (map unat cs) < 2 ^ 64"
    and tle: "unat target \<le> sum_list (map unat cs)"
  shows "b \<le> 64 \<Longrightarrow> unat cum = sum_list (map unat (take b cs)) \<Longrightarrow> unat cum < unat target \<Longrightarrow>
         percentile_loop cs target b cum =
           2 ^ min (concat (map (\<lambda>i. replicate (unat (cs ! i)) i) [b..<64])
                      ! (unat target - 1 - unat cum) + 1) 63"
proof (induction "64 - b" arbitrary: b cum)
  case 0
  then have "b = 64" by simp
  with 0 len tle show ?case by simp
next
  case (Suc k)
  let ?x = "cs ! b"
  let ?f = "\<lambda>i. replicate (unat (cs ! i)) i"
  let ?k = "unat target - 1 - unat cum"
  from Suc have b: "b < 64" by simp
  have s: "sum_list (map unat (take (Suc b) cs)) = unat cum + unat ?x"
    using take_sum_step [of b cs] b len Suc.prems(2) by simp
  have "unat cum + unat ?x < 2 ^ 64"
    using take_sum_le [of "Suc b" cs] nov s by simp
  then have ua: "unat (cum + ?x) = unat cum + unat ?x"
    by (simp add: unat_add_lem [THEN iffD1])
  have up: "[b..<64] = b # [Suc b..<64]" using b by (simp add: upt_conv_Cons)
  have cc: "concat (map ?f [b..<64]) = replicate (unat ?x) b @ concat (map ?f [Suc b..<64])"
    by (simp only: up list.map concat.simps)
  show ?case
  proof (cases "target \<le> cum + ?x")
    case True
    then have "unat target \<le> unat cum + unat ?x" using ua by (simp add: word_le_nat_alt)
    with Suc.prems(3) have "?k < unat ?x" by arith
    then have nth: "concat (map ?f [b..<64]) ! ?k = b"
      unfolding cc by (simp add: nth_append)
    have "percentile_loop cs target b cum = (if b \<ge> 63 then push_bit 63 1 else push_bit (b + 1) 1)"
      using True b by (simp add: percentile_loop.simps [of cs target b cum] hist_K_def Let_def)
    also have "\<dots> = 2 ^ min (b + 1) 63"
      by (simp add: min_def)
    finally show ?thesis unfolding nth .
  next
    case False
    then have lt: "unat cum + unat ?x < unat target" using ua by (simp add: word_le_nat_alt)
    then have ge: "unat ?x \<le> ?k" by arith
    have nth: "concat (map ?f [b..<64]) ! ?k =
               concat (map ?f [Suc b..<64]) ! (unat target - 1 - unat (cum + ?x))"
    proof -
      have "?k - unat ?x = unat target - 1 - unat (cum + ?x)" using ua by arith
      with ge show ?thesis unfolding cc by (simp add: nth_append)
    qed
    have ih: "percentile_loop cs target (Suc b) (cum + ?x) =
                2 ^ min (concat (map ?f [Suc b..<64]) ! (unat target - 1 - unat (cum + ?x)) + 1) 63"
    proof (rule Suc.hyps(1))
      show "k = 64 - Suc b" using Suc.hyps(2) by arith
      show "Suc b \<le> 64" using b by simp
      show "unat (cum + ?x) = sum_list (map unat (take (Suc b) cs))" using ua s by simp
      show "unat (cum + ?x) < unat target" using ua lt by simp
    qed
    have "percentile_loop cs target b cum = percentile_loop cs target (Suc b) (cum + ?x)"
      using False b by (simp add: percentile_loop.simps [of cs target b cum] hist_K_def Let_def)
    with ih show ?thesis unfolding nth by simp
  qed
qed


lemma bucket_lt: "bucket ns < 64"
  by (auto simp: bucket_def Let_def)

lemma record_all_snoc: "record_all (xs @ [x]) = hist_add x (record_all xs)"
  by (simp add: record_all_def)

lemma hist_counts:
  "length xs < 2 ^ 64 \<Longrightarrow>
   length (hist_c (record_all xs)) = 64 \<and>
   (\<forall>b<64. unat (hist_c (record_all xs) ! b) = count_list (map bucket xs) b) \<and>
   unat (hist_n (record_all xs)) = length xs"
proof (induction xs rule: rev_induct)
  case Nil
  then show ?case by (simp add: record_all_def empty_hist_def hist_K_def)
next
  case (snoc x xs)
  let ?h = "record_all xs"
  from snoc.prems have lx: "Suc (length xs) < 2 ^ 64" by simp
  with snoc.IH have len: "length (hist_c ?h) = 64"
    and cnt: "\<And>b. b < 64 \<Longrightarrow> unat (hist_c ?h ! b) = count_list (map bucket xs) b"
    and num: "unat (hist_n ?h) = length xs"
    by simp_all
  have inc: "unat (w + 1) = Suc (unat w)" if "unat w \<le> length xs" for w :: "64 word"
  proof -
    from that lx have "unat w + unat (1 :: 64 word) < 2 ^ LENGTH(64)" by simp
    then have "unat (w + 1) = unat w + unat (1 :: 64 word)"
      by (rule unat_add_lem [THEN iffD1])
    then show ?thesis by simp
  qed
  have c1: "length (hist_c (hist_add x ?h)) = 64"
    using len by (simp add: hist_add_def)
  have c2: "unat (hist_c (hist_add x ?h) ! b) = count_list (map bucket (xs @ [x])) b"
    if b: "b < 64" for b
  proof (cases "b = bucket x")
    case True
    have "unat (hist_c ?h ! b) \<le> length xs"
      using cnt [OF b] count_le_length [of "map bucket xs" b] by simp
    then have "unat (hist_c ?h ! b + 1) = Suc (unat (hist_c ?h ! b))" by (rule inc)
    with True b len cnt [OF b] show ?thesis by (simp add: hist_add_def)
  next
    case False
    with b len cnt [OF b] show ?thesis by (simp add: hist_add_def)
  qed
  have c3: "unat (hist_n (hist_add x ?h)) = length (xs @ [x])"
    using inc [of "hist_n ?h"] num by (simp add: hist_add_def)
  from c1 c2 c3 show ?case by (simp only: record_all_snoc) blast
qed

lemma hist_total:
  assumes "length xs < 2 ^ 64"
  shows "sum_list (map unat (hist_c (record_all xs))) = length xs"
proof -
  let ?cs = "hist_c (record_all xs)"
  let ?ys = "map bucket xs"
  from hist_counts [OF assms] have len: "length ?cs = 64"
    and cnt: "\<And>b. b < 64 \<Longrightarrow> unat (?cs ! b) = count_list ?ys b" by simp_all
  have "sum_list (map unat ?cs) = (\<Sum>i = 0..<64. map unat ?cs ! i)"
    using sum_list_sum_nth [of "map unat ?cs"] len by simp
  also have "\<dots> = (\<Sum>i = 0..<64. count_list ?ys i)"
    using len cnt by (intro sum.cong) simp_all
  also have "\<dots> = length ?ys"
  proof (rule sum_count_set)
    show "set ?ys \<subseteq> {0..<64}" using bucket_lt by auto
    show "finite {0..<64::nat}" by simp
  qed
  finally show ?thesis by simp
qed

lemma count_list_replicate: "count_list (replicate k x) a = (if a = x then k else 0)"
  by (induction k) auto

lemma count_blocks:
  "count_list (concat (map (\<lambda>b. replicate (f b) b) [0..<m])) a = (if a < m then f a else 0)"
  by (induction m) (auto simp: count_list_replicate)

lemma set_blocks: "set (concat (map (\<lambda>b. replicate (f b) b) [0..<m])) \<subseteq> {..<m}"
  by auto

lemma sorted_blocks: "sorted (concat (map (\<lambda>b. replicate (f b) b) [0..<m]))"
proof (induction m)
  case 0
  then show ?case by simp
next
  case (Suc m)
  have "\<forall>x\<in>set (concat (map (\<lambda>b. replicate (f b) b) [0..<m])). x \<le> m"
    using set_blocks [of f m] by auto
  with Suc show ?case by (simp add: sorted_append)
qed

lemma sort_blocks:
  assumes "\<forall>y\<in>set ys. y < m"
  shows "sort ys = concat (map (\<lambda>b. replicate (count_list ys b) b) [0..<m])"
proof (rule properties_for_sort)
  show "sorted (concat (map (\<lambda>b. replicate (count_list ys b) b) [0..<m]))"
    by (rule sorted_blocks)
  show "mset (concat (map (\<lambda>b. replicate (count_list ys b) b) [0..<m])) = mset ys"
  proof (rule multiset_eqI)
    fix a
    have "count_list ys a = 0" if "\<not> a < m"
      using that assms by (auto simp: count_list_0_iff)
    then show "count (mset (concat (map (\<lambda>b. replicate (count_list ys b) b) [0..<m]))) a =
               count (mset ys) a"
      by (simp only: count_mset count_blocks) simp
  qed
qed

lemma bucket_order_sort:
  assumes "length xs < 2 ^ 64"
  shows "bucket_order (record_all xs) = sort (map bucket xs)"
proof -
  let ?cs = "hist_c (record_all xs)"
  from hist_counts [OF assms] have
    cnt: "\<And>b. b < 64 \<Longrightarrow> unat (?cs ! b) = count_list (map bucket xs) b" by simp
  have e1: "map (\<lambda>b. replicate (unat (?cs ! b)) b) [0..<64] =
        map (\<lambda>b. replicate (count_list (map bucket xs) b) b) [0..<64]"
    by (rule map_cong) (simp_all add: cnt)
  have e2: "sort (map bucket xs) =
        concat (map (\<lambda>b. replicate (count_list (map bucket xs) b) b) [0..<64])"
    by (rule sort_blocks) (simp add: bucket_lt)
  show ?thesis unfolding bucket_order_def hist_K_def e1 e2 ..
qed


text \<open>
  C5 (amended). For the histogram of a non-empty list of fewer than \<open>2^64\<close> samples and
  \<open>p\<close> in \<open>(0, 1]\<close>, let \<open>t\<close> be the product \<open>p * (double)n\<close> truncated to an integer, and
  1 when that is 0. When \<open>t\<close> is at most \<open>n\<close>, \<open>percentile(p)\<close> is \<open>2^(b+1)\<close>, capped at
  \<open>2^63\<close>, for the bucket \<open>b\<close> of the \<open>t\<close>-th sample in increasing bucket order.
\<close>

theorem percentile_bucket:
  fixes xs :: "64 word list"
  assumes ne: "xs \<noteq> []" and len: "length xs < 2 ^ 64"
    and p0: "0 < p" and p1: "p \<le> 1"
    and t: "t = max 1 (nat \<lfloor>fmul p (hist_n (record_all xs))\<rfloor>)"
    and tn: "t \<le> length xs"
  shows "percentile fmul (record_all xs) p = 2 ^ min (sort (map bucket xs) ! (t - 1) + 1) 63"
proof -
  let ?h = "record_all xs"
  let ?m = "nat \<lfloor>fmul p (hist_n ?h)\<rfloor>"
  let ?target = "word_of_nat ?m :: 64 word"
  let ?target' = "if ?target = 0 then 1 else ?target"
  from hist_counts [OF len] have cl: "length (hist_c ?h) = 64"
    and hn: "unat (hist_n ?h) = length xs" by simp_all
  from hn ne have n0: "hist_n ?h \<noteq> 0" by auto
  have tot: "sum_list (map unat (hist_c ?h)) = length xs" by (rule hist_total [OF len])
  have ut: "unat ?target' = t"
  proof (cases "?m = 0")
    case True
    with t show ?thesis by simp
  next
    case False
    with t have tm: "t = ?m" by simp
    with tn len have "?m < 2 ^ 64" by simp
    then have "unat ?target = ?m" by (simp add: unat_of_nat)
    with False tm show ?thesis by (auto simp: unat_0_iff [symmetric] simp del: unat_0_iff)
  qed
  have "percentile fmul ?h p = percentile_loop (hist_c ?h) ?target' 0 0"
    using n0 p0 p1 by (simp add: percentile_def Let_def)
  also have "\<dots> = 2 ^ min (concat (map (\<lambda>i. replicate (unat (hist_c ?h ! i)) i) [0..<64])
                      ! (unat ?target' - 1 - unat (0 :: 64 word)) + 1) 63"
  proof (rule percentile_loop_correct [OF cl])
    show "sum_list (map unat (hist_c ?h)) < 2 ^ 64" using tot len by simp
    show "unat ?target' \<le> sum_list (map unat (hist_c ?h))" using ut tot tn by simp
    show "(0::nat) \<le> 64" by simp
    show "unat (0 :: 64 word) = sum_list (map unat (take 0 (hist_c ?h)))" by simp
    show "unat (0 :: 64 word) < unat ?target'" using ut t by simp
  qed
  also have "concat (map (\<lambda>i. replicate (unat (hist_c ?h ! i)) i) [0..<64]) = sort (map bucket xs)"
    using bucket_order_sort [OF len] by (simp add: bucket_order_def hist_K_def)
  finally show ?thesis using ut by simp
qed


text \<open>
  Three samples, 1 ns, 2 ns and 3 ns, fall into the buckets 0, 1, 1. At \<open>p = 1/2\<close> the
  product \<open>p * n = 1.5\<close> is a double, so the code computes it without rounding and
  truncates it to 1.
\<close>

lemma example_buckets: "map bucket [1, 2, 3] = [0, 1, 1]"
  by code_simp

lemma example_hist:
  "record_all [1, 2, 3] = \<lparr>hist_c = 1 # 2 # replicate 62 0, hist_n = 3\<rparr>"
  by code_simp

lemma example_target: "nat \<lfloor>exact_mul (1 / 2) 3\<rfloor> = 1"
  by (simp add: exact_mul_def)

lemma example_loop: "percentile_loop (1 # 2 # replicate 62 0) 1 0 0 = 2"
  by code_simp

lemma example_percentile: "percentile exact_mul (record_all [1, 2, 3]) (1 / 2) = 2"
  unfolding example_hist
  by (simp add: percentile_def example_target example_loop Let_def)

text \<open>
  There \<open>percentile\<close> returns 2, the upper bound of bucket 0, which holds the first
  sample; the sample of rank \<open>\<lceil>p * n\<rceil> = 2\<close> is in bucket 1, with upper bound 4.
\<close>

theorem percentile_rounds_down:
  "percentile exact_mul (record_all [1, 2, 3]) (1 / 2) = 2 \<and>
   nat \<lceil>(1 / 2 :: real) * real (length [1, 2, 3 :: 64 word])\<rceil> = 2 \<and>
   sort (map bucket [1, 2, 3]) ! (2 - 1) = 1 \<and>
   percentile exact_mul (record_all [1, 2, 3]) (1 / 2) \<noteq>
     2 ^ min (sort (map bucket [1, 2, 3])
                ! (nat \<lceil>(1 / 2 :: real) * real (length [1, 2, 3 :: 64 word])\<rceil> - 1) + 1) 63"
proof -
  have c: "nat \<lceil>(1 / 2 :: real) * real (length [1, 2, 3 :: 64 word])\<rceil> = 2" by simp
  have s: "sort (map bucket [1, 2, 3]) ! (2 - 1) = 1"
    unfolding example_buckets by simp
  have "(2 :: 64 word) \<noteq> 2 ^ min (1 + 1) 63" by simp
  then show ?thesis unfolding c s example_percentile using c s by simp
qed


theorem percentile_bucket_witness:
  "[1, 2, 3 :: 64 word] \<noteq> [] \<and> length [1, 2, 3 :: 64 word] < 2 ^ 64 \<and>
   (0 :: real) < 1 / 2 \<and> (1 / 2 :: real) \<le> 1 \<and>
   (1 :: nat) = max 1 (nat \<lfloor>exact_mul (1 / 2) (hist_n (record_all [1, 2, 3]))\<rfloor>) \<and>
   (1 :: nat) \<le> length [1, 2, 3 :: 64 word] \<and>
   percentile exact_mul (record_all [1, 2, 3]) (1 / 2) =
     2 ^ min (sort (map bucket [1, 2, 3]) ! (1 - 1) + 1) 63"
proof -
  have h1: "[1, 2, 3 :: 64 word] \<noteq> []" by simp
  have h2: "length [1, 2, 3 :: 64 word] < 2 ^ 64" by simp
  have h3: "(0 :: real) < 1 / 2" by simp
  have h4: "(1 / 2 :: real) \<le> 1" by simp
  have h5: "(1 :: nat) = max 1 (nat \<lfloor>exact_mul (1 / 2) (hist_n (record_all [1, 2, 3]))\<rfloor>)"
    unfolding example_hist by (simp add: example_target)
  have h6: "(1 :: nat) \<le> length [1, 2, 3 :: 64 word]" by simp
  from percentile_bucket [where fmul = exact_mul and p = "1 / 2" and t = 1, OF h1 h2 h3 h4 h5 h6]
    h1 h2 h3 h4 h5 h6
  show ?thesis by blast
qed


end
